theory Spec2Isabelle
  imports Main "HOL-Library.AList" "HOL-Library.Multiset"
begin

section \<open>Data model of \<^verbatim>\<open>packages/gatsby/src/utils/node-manifest.ts\<close>\<close>

text \<open>
  JavaScript \<^verbatim>\<open>Map\<close>s are association lists in insertion order, read with
  \<^const>\<open>map_of\<close>; a \<^verbatim>\<open>Set\<close> of strings is the list of its elements in insertion
  order. An optional property (\<^verbatim>\<open>ownerNodeId?\<close>, \<^verbatim>\<open>context.id\<close>, a node's
  \<^verbatim>\<open>name\<close>) is an \<open>option\<close>, \<open>None\<close> standing for \<^verbatim>\<open>undefined\<close>.
\<close>

record INodeRef =
  node_id :: string

record INodeManifest =
  manifestId :: string
  pluginName :: string
  node :: INodeRef

record IGatsbyPage =
  path :: string
  ownerNodeId :: "string option"
  context_id :: "string option"
  pluginCreatorId :: string

record IGatsbyNode =
  name :: "string option"

datatype FoundPageBy =
  OwnerNodeId | FilesystemRouteApi | ContextId | QueryTracking | NoneFound

text \<open>The string each member of the union type \<^verbatim>\<open>FoundPageBy\<close> is at run time.\<close>

fun FoundPageBy_string :: "FoundPageBy \<Rightarrow> string" where
  "FoundPageBy_string OwnerNodeId = ''ownerNodeId''"
| "FoundPageBy_string FilesystemRouteApi = ''filesystem-route-api''"
| "FoundPageBy_string ContextId = ''context.id''"
| "FoundPageBy_string QueryTracking = ''queryTracking''"
| "FoundPageBy_string NoneFound = ''none''"

text \<open>
  The part of \<^verbatim>\<open>store.getState()\<close> the file reads: \<^verbatim>\<open>pages\<close> (page path to page),
  \<^verbatim>\<open>nodes\<close>, \<^verbatim>\<open>queries.byNode\<close> (node id to the set of page paths that queried it;
  the source reads it with \<^verbatim>\<open>byNode?.get\<close>, so it may be undefined),
  \<^verbatim>\<open>nodeManifests\<close> and \<^verbatim>\<open>program.directory\<close>.
\<close>

record GatsbyState =
  pages :: "(string \<times> IGatsbyPage) list"
  nodes :: "(string \<times> IGatsbyNode) list"
  byNode :: "(string \<times> string list) list option"
  nodeManifests :: "INodeManifest list"
  program_directory :: string

text \<open>\<^verbatim>\<open>process.env\<close> and \<^verbatim>\<open>process.platform\<close>.\<close>

record Process =
  NODE_ENV :: "string option"
  gatsby_log_level :: "string option"
  VERBOSE_NODE_MANIFEST :: "string option"
  platform :: string

text \<open>What \<^verbatim>\<open>findPageOwnedByNodeId\<close> returns: \<^verbatim>\<open>{ page: { path }, foundPageBy }\<close>,
  with \<open>None\<close> for a \<^verbatim>\<open>null\<close> path.\<close>

record FoundPage =
  page_path :: "string option"
  foundPageBy :: FoundPageBy

section \<open>The resolver: \<^verbatim>\<open>findPageOwnedByNodeId\<close>\<close>

text \<open>JavaScript truthiness of a value of type \<^verbatim>\<open>string | undefined\<close>: the empty
  string and \<^verbatim>\<open>undefined\<close> are falsy.\<close>

fun truthy :: "string option \<Rightarrow> bool" where
  "truthy None = False"
| "truthy (Some s) = (s \<noteq> [])"

text \<open>\<^verbatim>\<open>byNode?.get(nodeId)\<close>\<close>

definition trackedPaths :: "GatsbyState \<Rightarrow> string \<Rightarrow> string list option" where
  "trackedPaths state nodeId =
     (case byNode state of None \<Rightarrow> None | Some m \<Rightarrow> map_of m nodeId)"

text \<open>
  \<^verbatim>\<open>pagePathSetOrMap\<close> (lines 57-63), already as the list of the \<^verbatim>\<open>path\<close> values the
  loop computes from its elements (lines 89-95): in development the values of the
  \<^verbatim>\<open>pages\<close> map, each read at \<^verbatim>\<open>.path\<close>; otherwise the tracked set of page paths, which
  is undefined when the node id is not tracked.
\<close>

definition pagePathSetOrMap :: "Process \<Rightarrow> GatsbyState \<Rightarrow> string \<Rightarrow> string list option" where
  "pagePathSetOrMap proc state nodeId =
     (let usingPagesMap = (Some ''development'' = NODE_ENV proc)
      in if usingPagesMap then Some (map (\<lambda>kv. path (snd kv)) (pages state))
         else trackedPaths state nodeId)"

text \<open>\<^verbatim>\<open>fullPage?.ownerNodeId === nodeId\<close> and \<^verbatim>\<open>fullPage?.context.id === nodeId\<close>
  for \<^verbatim>\<open>fullPage = pages.get(path)\<close>.\<close>

definition foundOwnerNodeIdAt :: "GatsbyState \<Rightarrow> string \<Rightarrow> string \<Rightarrow> bool" where
  "foundOwnerNodeIdAt state nodeId p =
     (case map_of (pages state) p of None \<Rightarrow> False
      | Some fullPage \<Rightarrow> ownerNodeId fullPage = Some nodeId)"

definition foundPageIdInContextAt :: "GatsbyState \<Rightarrow> string \<Rightarrow> string \<Rightarrow> bool" where
  "foundPageIdInContextAt state nodeId p =
     (case map_of (pages state) p of None \<Rightarrow> False
      | Some fullPage \<Rightarrow> context_id fullPage = Some nodeId)"

text \<open>\<^verbatim>\<open>nodes.get(fullPage.pluginCreatorId)?.name === `gatsby-plugin-page-creator`\<close>\<close>

definition pageCreatedByFilesystemPlugin :: "GatsbyState \<Rightarrow> IGatsbyPage \<Rightarrow> bool" where
  "pageCreatedByFilesystemPlugin state fullPage =
     (let pageCreatedByPluginName =
            (case map_of (nodes state) (pluginCreatorId fullPage) of
               None \<Rightarrow> None | Some n \<Rightarrow> name n)
      in pageCreatedByPluginName = Some ''gatsby-plugin-page-creator'')"

text \<open>The variables the loop of lines 77-136 updates.\<close>

record Scan =
  scanFoundPageBy :: FoundPageBy
  ownerPagePath :: "string option"
  foundOwnerNodeId :: bool

text \<open>One iteration of the loop after its \<^verbatim>\<open>break\<close> test (lines 89-135).\<close>

definition scanStep :: "GatsbyState \<Rightarrow> string \<Rightarrow> Scan \<Rightarrow> string \<Rightarrow> Scan" where
  "scanStep state nodeId s p =
     (let fullPage = map_of (pages state) p;
          foundOwner = foundOwnerNodeIdAt state nodeId p;
          foundPageIdInContext = foundPageIdInContextAt state nodeId p
      in \<lparr> scanFoundPageBy =
             (if foundOwner then OwnerNodeId
              else (case fullPage of
                      None \<Rightarrow> scanFoundPageBy s
                    | Some pg \<Rightarrow>
                        if foundPageIdInContext
                        then (if pageCreatedByFilesystemPlugin state pg
                              then FilesystemRouteApi else ContextId)
                        else scanFoundPageBy s)),
           ownerPagePath =
             (case fullPage of
                None \<Rightarrow> ownerPagePath s
              | Some pg \<Rightarrow>
                  if foundOwner \<or> foundPageIdInContext then Some (path pg)
                  else ownerPagePath s),
           foundOwnerNodeId = foundOwner \<rparr>)"

text \<open>The \<^verbatim>\<open>for ... of\<close> loop: it breaks as soon as \<^verbatim>\<open>foundOwnerNodeId\<close> is set.\<close>

fun scanCandidates :: "GatsbyState \<Rightarrow> string \<Rightarrow> Scan \<Rightarrow> string list \<Rightarrow> Scan" where
  "scanCandidates state nodeId s [] = s"
| "scanCandidates state nodeId s (p # ps) =
     (if foundOwnerNodeId s then s
      else scanCandidates state nodeId (scanStep state nodeId s p) ps)"

text \<open>The default page path: the first entry of the tracked set (line 68).\<close>

definition defaultPagePath :: "GatsbyState \<Rightarrow> string \<Rightarrow> string option" where
  "defaultPagePath state nodeId =
     (case trackedPaths state nodeId of
        None \<Rightarrow> None
      | Some [] \<Rightarrow> None
      | Some (p # ps) \<Rightarrow> Some p)"

definition scanInit :: "GatsbyState \<Rightarrow> string \<Rightarrow> Scan" where
  "scanInit state nodeId =
     \<lparr> scanFoundPageBy =
         (if truthy (defaultPagePath state nodeId) then QueryTracking else NoneFound),
       ownerPagePath = None,
       foundOwnerNodeId = False \<rparr>"

definition findPageOwnedByNodeId :: "Process \<Rightarrow> GatsbyState \<Rightarrow> string \<Rightarrow> FoundPage" where
  "findPageOwnedByNodeId proc state nodeId =
     (let pagePath0 = defaultPagePath state nodeId;
          s0 = scanInit state nodeId;
          s = (case pagePathSetOrMap proc state nodeId of
                 None \<Rightarrow> s0
               | Some candidates \<Rightarrow> scanCandidates state nodeId s0 candidates);
          pagePath = (if truthy (ownerPagePath s) then ownerPagePath s else pagePath0)
      in \<lparr> page_path = (if truthy pagePath then pagePath else None),
           foundPageBy = scanFoundPageBy s \<rparr>)"

section \<open>Diagnostics: \<^verbatim>\<open>warnAboutNodeManifestMappingProblems\<close>\<close>

definition foundPageByToLogIds :: "(string \<times> string) list" where
  "foundPageByToLogIds =
     [(''none'', ''11801''),
      (''context.id'', ''11802''),
      (''queryTracking'', ''11803''),
      (''filesystem-route-api'', ''success''),
      (''ownerNodeId'', ''success'')]"

text \<open>
  The reporter is the list of what it was given, oldest first. An error carries its id
  and its context object; the informational messages carry the values their template
  strings interpolate: the plugin name and file name base of "created a manifest", the
  two counters and the elapsed time of the summary, and the warning ids of the last
  message (empty when the message has no "produced warnings" part).
\<close>

datatype ErrorContext =
  MappingContext INodeManifest "string option"
| NoNodeContext string string

datatype LogEntry =
  ReporterError string ErrorContext
| InfoCreated string string
| InfoWroteOut nat nat int
| InfoWarnings "string list"

text \<open>
  \<open>ImpossibleState\<close> is the \<^verbatim>\<open>throw\<close> of the \<^verbatim>\<open>default\<close> case. The function takes
  \<^verbatim>\<open>foundPageBy\<close> as the string it is at run time, so that the \<^verbatim>\<open>default\<close> case is a
  branch of the model. \<open>UndefinedLogId\<close> marks a key missing from
  \<^const>\<open>foundPageByToLogIds\<close> in one of the first three cases, where the table has it
  (lemma \<open>foundPageByToLogIds_keys\<close>).
\<close>

datatype error = ImpossibleState | UndefinedLogId

definition warnAboutNodeManifestMappingProblems ::
  "INodeManifest \<Rightarrow> string option \<Rightarrow> string \<Rightarrow> bool \<Rightarrow> LogEntry list
     \<Rightarrow> error + (string \<times> LogEntry list)" where
  "warnAboutNodeManifestMappingProblems inputManifest pagePath fpb verbose rep =
     (if fpb = ''none'' \<or> fpb = ''context.id'' \<or> fpb = ''queryTracking'' then
        (case map_of foundPageByToLogIds fpb of
           None \<Rightarrow> Inl UndefinedLogId
         | Some logId \<Rightarrow>
             Inr (logId,
                  if verbose
                  then rep @ [ReporterError logId (MappingContext inputManifest pagePath)]
                  else rep))
      else if fpb = ''filesystem-route-api'' \<or> fpb = ''ownerNodeId'' then
        Inr (''success'', rep)
      else Inl ImpossibleState)"

section \<open>The manifest processor: \<^verbatim>\<open>processNodeManifest\<close>\<close>

record INodeManifestOut =
  out_page_path :: "string option"
  out_node :: INodeRef
  out_foundPageBy :: FoundPageBy

datatype Action = DELETE_NODE_MANIFESTS

text \<open>
  Everything outside the file that it reads or changes: the process, the redux store
  with the actions dispatched to it, the datastore behind \<^verbatim>\<open>getNode\<close>, the files and
  directories of the file system, the reporter, and the two functions of Node's
  \<^verbatim>\<open>path\<close> module that the file calls (parameters of the model). \<^verbatim>\<open>fs.ensureDir\<close>
  and \<^verbatim>\<open>fs.writeJSON\<close> are modelled where they succeed.
\<close>

record World =
  proc :: Process
  store :: GatsbyState
  dispatched :: "Action list"
  datastore :: "(string \<times> IGatsbyNode) list"
  files :: "string \<rightharpoonup> INodeManifestOut"
  dirs :: "string set"
  reporter :: "LogEntry list"
  path_join :: "string list \<Rightarrow> string"
  path_dirname :: "string \<Rightarrow> string"

definition getNode :: "World \<Rightarrow> string \<Rightarrow> IGatsbyNode option" where
  "getNode w nodeId = map_of (datastore w) nodeId"

text \<open>\<^verbatim>\<open>Set.prototype.add\<close> on a set kept in insertion order.\<close>

definition Set_add :: "'a \<Rightarrow> 'a list \<Rightarrow> 'a list" where
  "Set_add x xs = (if x \<in> set xs then xs else xs @ [x])"

text \<open>The characters of the regular expression \<^verbatim>\<open>/:|\/|\*|\?|"|<|>|\||\\/g\<close>.\<close>

definition reservedChars :: "char list" where
  "reservedChars =
     [CHR '':'', CHR ''/'', CHR ''*'', CHR ''?'', CHR 0x22,
      CHR ''<'', CHR ''>'', CHR ''|'', CHR 0x5C]"

text \<open>\<^verbatim>\<open>fileNameBase\<close> after lines 270-288.\<close>

definition fileNameBase :: "Process \<Rightarrow> INodeManifest \<Rightarrow> string" where
  "fileNameBase p inputManifest =
     (if platform p = ''win32''
      then map (\<lambda>c. if c \<in> set reservedChars then CHR ''-'' else c) (manifestId inputManifest)
      else manifestId inputManifest)"

definition manifestFilePath :: "World \<Rightarrow> INodeManifest \<Rightarrow> string" where
  "manifestFilePath w inputManifest =
     path_join w
       [program_directory (store w), ''public'', ''__node-manifests'',
        pluginName inputManifest, fileNameBase (proc w) inputManifest @ ''.json'']"

definition processNodeManifest ::
  "INodeManifest \<Rightarrow> string list \<Rightarrow> (string \<times> string) list \<Rightarrow> bool \<Rightarrow> World
     \<Rightarrow> error + (INodeManifestOut option \<times> string list \<times> (string \<times> string) list \<times> World)" where
  "processNodeManifest inputManifest listOfUniqueErrorIds nodeManifestPagePathMap verboseLogs w =
     (let nodeId = node_id (node inputManifest);
          noNodeWarningId = ''11804''
      in case getNode w nodeId of
           None \<Rightarrow>
             if verboseLogs
             then Inr (None, listOfUniqueErrorIds, nodeManifestPagePathMap,
                       w\<lparr> reporter := reporter w @
                            [ReporterError noNodeWarningId
                               (NoNodeContext (pluginName inputManifest) nodeId)] \<rparr>)
             else Inr (None, Set_add noNodeWarningId listOfUniqueErrorIds,
                       nodeManifestPagePathMap, w)
         | Some fullNode \<Rightarrow>
             (let found = findPageOwnedByNodeId (proc w) (store w) nodeId
              in case warnAboutNodeManifestMappingProblems inputManifest (page_path found)
                        (FoundPageBy_string (foundPageBy found)) verboseLogs (reporter w) of
                   Inl e \<Rightarrow> Inl e
                 | Inr (logId, rep) \<Rightarrow>
                     (let ids = (if \<not> verboseLogs \<and> logId \<noteq> ''success''
                                 then Set_add logId listOfUniqueErrorIds
                                 else listOfUniqueErrorIds);
                          finalManifest =
                            \<lparr> out_page_path = page_path found,
                              out_node = node inputManifest,
                              out_foundPageBy = foundPageBy found \<rparr>;
                          base = fileNameBase (proc w) inputManifest;
                          file = manifestFilePath w inputManifest;
                          manifestFileDir = path_dirname w file;
                          w' = w\<lparr> dirs := insert manifestFileDir (dirs w),
                                  files := (files w)(file \<mapsto> finalManifest),
                                  reporter :=
                                    (if verboseLogs
                                     then rep @ [InfoCreated (pluginName inputManifest) base]
                                     else rep) \<rparr>;
                          pathMap = (if truthy (page_path found)
                                     then (case page_path found of
                                             None \<Rightarrow> nodeManifestPagePathMap
                                           | Some p \<Rightarrow>
                                               AList.update p base nodeManifestPagePathMap)
                                     else nodeManifestPagePathMap)
                      in Inr (Some finalManifest, ids, pathMap, w'))))"

section \<open>The batch orchestrator: \<^verbatim>\<open>processNodeManifests\<close>\<close>

text \<open>The local variables of \<^verbatim>\<open>processNodeManifests\<close> that the tasks share.\<close>

record Batch =
  totalProcessedManifests :: nat
  totalFailedManifests :: nat
  nodeManifestPagePathMap :: "(string \<times> string) list"
  listOfUniqueErrorIds :: "string list"

definition processNodeManifestTask ::
  "bool \<Rightarrow> INodeManifest \<Rightarrow> Batch \<times> World \<Rightarrow> error + (Batch \<times> World)" where
  "processNodeManifestTask verboseLogs manifest bw =
     (case processNodeManifest manifest (listOfUniqueErrorIds (fst bw))
             (nodeManifestPagePathMap (fst bw)) verboseLogs (snd bw) of
        Inl e \<Rightarrow> Inl e
      | Inr (processedManifest, ids, pathMap, w') \<Rightarrow>
          Inr ((fst bw)\<lparr> totalProcessedManifests :=
                           (if processedManifest \<noteq> None
                            then totalProcessedManifests (fst bw) + 1
                            else totalProcessedManifests (fst bw)),
                         totalFailedManifests :=
                           (if processedManifest \<noteq> None
                            then totalFailedManifests (fst bw)
                            else totalFailedManifests (fst bw) + 1),
                         nodeManifestPagePathMap := pathMap,
                         listOfUniqueErrorIds := ids \<rparr>, w'))"

text \<open>
  \<^const>\<open>processNodeManifestTask\<close> is one task from its start to the increment of its
  counter with nothing running in between. In the batch the tasks are in flight together:
  each is \<^verbatim>\<open>async\<close> and gives way at every \<^verbatim>\<open>await\<close>, and what it does between two
  awaits runs undisturbed. The stages below are the awaits a task can be suspended at,
  each holding the local variables that the code after it reads:
  \<^item> \<open>AwaitFindPage\<close>: \<^verbatim>\<open>await findPageOwnedByNodeId\<close> (line 239), whose body has
    already run, with its result;
  \<^item> \<open>AwaitEnsureDir\<close>: \<^verbatim>\<open>await fs.ensureDir\<close> (line 301);
  \<^item> \<open>AwaitWriteJSON\<close>: \<^verbatim>\<open>await fs.writeJSON\<close> (line 302);
  \<^item> \<open>AwaitProcessed\<close>: \<^verbatim>\<open>await processNodeManifest\<close> in the task (line 348), with
    the value the promise was resolved with;
  \<^item> \<open>AwaitImmediate\<close>: \<^verbatim>\<open>setImmediate\<close> is scheduled (line 363) and the callback
    not yet called.
\<close>

record Frame =
  finalManifest :: INodeManifestOut
  heldFileNameBase :: string
  heldManifestFilePath :: string
  manifestFileDir :: string

datatype Stage =
  AwaitFindPage FoundPage
| AwaitEnsureDir Frame
| AwaitWriteJSON Frame
| AwaitProcessed "INodeManifestOut option"
| AwaitImmediate

text \<open>The worker is called: lines 348 and 218-241, up to the first await.\<close>

definition startTask ::
  "bool \<Rightarrow> INodeManifest \<Rightarrow> Batch \<times> World \<Rightarrow> Stage \<times> Batch \<times> World" where
  "startTask verboseLogs inputManifest bw =
     (let b = fst bw; w = snd bw;
          nodeId = node_id (node inputManifest);
          noNodeWarningId = ''11804''
      in case getNode w nodeId of
           None \<Rightarrow>
             if verboseLogs
             then (AwaitProcessed None, b,
                   w\<lparr> reporter := reporter w @
                        [ReporterError noNodeWarningId
                           (NoNodeContext (pluginName inputManifest) nodeId)] \<rparr>)
             else (AwaitProcessed None,
                   b\<lparr> listOfUniqueErrorIds :=
                        Set_add noNodeWarningId (listOfUniqueErrorIds b) \<rparr>, w)
         | Some fullNode \<Rightarrow>
             (AwaitFindPage (findPageOwnedByNodeId (proc w) (store w) nodeId), b, w))"

text \<open>Lines 239-301: from the result of \<^verbatim>\<open>findPageOwnedByNodeId\<close> to the call of
  \<^verbatim>\<open>fs.ensureDir\<close>.\<close>

definition resumeFindPage ::
  "bool \<Rightarrow> INodeManifest \<Rightarrow> FoundPage \<Rightarrow> Batch \<times> World
     \<Rightarrow> error + (Stage \<times> Batch \<times> World)" where
  "resumeFindPage verboseLogs inputManifest found bw =
     (let b = fst bw; w = snd bw
      in case warnAboutNodeManifestMappingProblems inputManifest (page_path found)
                (FoundPageBy_string (foundPageBy found)) verboseLogs (reporter w) of
           Inl e \<Rightarrow> Inl e
         | Inr (logId, rep) \<Rightarrow>
             (let ids = (if \<not> verboseLogs \<and> logId \<noteq> ''success''
                         then Set_add logId (listOfUniqueErrorIds b)
                         else listOfUniqueErrorIds b);
                  file = manifestFilePath w inputManifest
              in Inr (AwaitEnsureDir
                        \<lparr> finalManifest =
                            \<lparr> out_page_path = page_path found,
                              out_node = node inputManifest,
                              out_foundPageBy = foundPageBy found \<rparr>,
                          heldFileNameBase = fileNameBase (proc w) inputManifest,
                          heldManifestFilePath = file,
                          manifestFileDir = path_dirname w file \<rparr>,
                      b\<lparr> listOfUniqueErrorIds := ids \<rparr>,
                      w\<lparr> reporter := rep \<rparr>)))"

text \<open>Lines 301-302: \<^verbatim>\<open>fs.ensureDir\<close> has resolved, so the directory exists, and
  \<^verbatim>\<open>fs.writeJSON\<close> is called.\<close>

definition resumeEnsureDir :: "Frame \<Rightarrow> Batch \<times> World \<Rightarrow> Stage \<times> Batch \<times> World" where
  "resumeEnsureDir fr bw =
     (AwaitWriteJSON fr, fst bw,
      (snd bw)\<lparr> dirs := insert (manifestFileDir fr) (dirs (snd bw)) \<rparr>)"

text \<open>Lines 302-314: \<^verbatim>\<open>fs.writeJSON\<close> has resolved, so the file has its content; the
  message, the entry of the page path map and the return.\<close>

definition resumeWriteJSON ::
  "bool \<Rightarrow> INodeManifest \<Rightarrow> Frame \<Rightarrow> Batch \<times> World \<Rightarrow> Stage \<times> Batch \<times> World" where
  "resumeWriteJSON verboseLogs inputManifest fr bw =
     (let b = fst bw; w = snd bw;
          w' = w\<lparr> files := (files w)(heldManifestFilePath fr \<mapsto> finalManifest fr),
                  reporter :=
                    (if verboseLogs
                     then reporter w @
                          [InfoCreated (pluginName inputManifest) (heldFileNameBase fr)]
                     else reporter w) \<rparr>;
          pathMap = (if truthy (out_page_path (finalManifest fr))
                     then (case out_page_path (finalManifest fr) of
                             None \<Rightarrow> nodeManifestPagePathMap b
                           | Some p \<Rightarrow>
                               AList.update p (heldFileNameBase fr) (nodeManifestPagePathMap b))
                     else nodeManifestPagePathMap b)
      in (AwaitProcessed (Some (finalManifest fr)),
          b\<lparr> nodeManifestPagePathMap := pathMap \<rparr>, w'))"

text \<open>Lines 355-364: the counters and \<^verbatim>\<open>setImmediate\<close>.\<close>

definition resumeProcessed ::
  "INodeManifestOut option \<Rightarrow> Batch \<times> World \<Rightarrow> Stage \<times> Batch \<times> World" where
  "resumeProcessed processedManifest bw =
     (AwaitImmediate,
      (if processedManifest \<noteq> None
       then (fst bw)\<lparr> totalProcessedManifests := totalProcessedManifests (fst bw) + 1 \<rparr>
       else (fst bw)\<lparr> totalFailedManifests := totalFailedManifests (fst bw) + 1 \<rparr>),
      snd bw)"

text \<open>
  A task of the queue is waiting to be started, in flight at a stage, or has called back.
  The queue is the list of the manifests pushed, in the order pushed, each with the state
  of its task.
\<close>

datatype TaskState = Queued | InFlight Stage | Finished

type_synonym Tasks = "(INodeManifest \<times> TaskState) list"

fun isInFlight :: "TaskState \<Rightarrow> bool" where
  "isInFlight (InFlight stage) = True"
| "isInFlight t = False"

text \<open>The event loop resumes a task in flight: it runs from the await it is suspended at
  to its next one, or, from \<open>AwaitImmediate\<close>, calls back.\<close>

fun resume ::
  "bool \<Rightarrow> INodeManifest \<Rightarrow> Stage \<Rightarrow> Batch \<times> World
     \<Rightarrow> error + (TaskState \<times> Batch \<times> World)" where
  "resume verboseLogs manifest (AwaitFindPage found) bw =
     (case resumeFindPage verboseLogs manifest found bw of
        Inl e \<Rightarrow> Inl e
      | Inr (stage, bw') \<Rightarrow> Inr (InFlight stage, bw'))"
| "resume verboseLogs manifest (AwaitEnsureDir fr) bw =
     (case resumeEnsureDir fr bw of (stage, bw') \<Rightarrow> Inr (InFlight stage, bw'))"
| "resume verboseLogs manifest (AwaitWriteJSON fr) bw =
     (case resumeWriteJSON verboseLogs manifest fr bw of
        (stage, bw') \<Rightarrow> Inr (InFlight stage, bw'))"
| "resume verboseLogs manifest (AwaitProcessed processedManifest) bw =
     (case resumeProcessed processedManifest bw of
        (stage, bw') \<Rightarrow> Inr (InFlight stage, bw'))"
| "resume verboseLogs manifest AwaitImmediate bw = Inr (Finished, bw)"

text \<open>
  Modelled from the spec: the queue of the library \<^verbatim>\<open>fastq\<close> is not in this
  repository. The spec: "Submit every pending request to a bounded-concurrency work queue
  with a fixed concurrency limit of 25 simultaneous in-flight tasks", "Wait until the
  queue is fully drained (no pending or in-flight tasks)", and "no ordering guarantee
  between completion of different requests". So \<^verbatim>\<open>push\<close> calls the worker at once
  while fewer than \<^verbatim>\<open>concurrency\<close> tasks are in flight and makes the task wait
  otherwise; when a task calls back, the task that has waited longest is started in its
  place; the queue is drained when no task is left.
\<close>

definition running :: "Tasks \<Rightarrow> nat" where
  "running tasks = length (filter (\<lambda>mt. isInFlight (snd mt)) tasks)"

definition push ::
  "nat \<Rightarrow> bool \<Rightarrow> INodeManifest \<Rightarrow> Tasks \<times> Batch \<times> World \<Rightarrow> Tasks \<times> Batch \<times> World" where
  "push concurrency verboseLogs manifest st =
     (if running (fst st) \<ge> concurrency
      then (fst st @ [(manifest, Queued)], snd st)
      else (case startTask verboseLogs manifest (snd st) of
              (stage, bw') \<Rightarrow> (fst st @ [(manifest, InFlight stage)], bw')))"

fun firstQueued :: "Tasks \<Rightarrow> nat option" where
  "firstQueued [] = None"
| "firstQueued (mt # rest) =
     (if snd mt = Queued then Some 0 else map_option Suc (firstQueued rest))"

definition release :: "bool \<Rightarrow> Tasks \<times> Batch \<times> World \<Rightarrow> Tasks \<times> Batch \<times> World" where
  "release verboseLogs st =
     (case firstQueued (fst st) of
        None \<Rightarrow> st
      | Some j \<Rightarrow>
          (case startTask verboseLogs (fst (fst st ! j)) (snd st) of
             (stage, bw') \<Rightarrow> ((fst st)[j := (fst (fst st ! j), InFlight stage)], bw')))"

definition drained :: "Tasks \<Rightarrow> bool" where
  "drained tasks = list_all (\<lambda>mt. snd mt = Finished) tasks"

text \<open>
  One turn of the event loop in which the task at position \<open>i\<close> of the queue is resumed;
  \<open>None\<close> when that task is not in flight, so that there is no such turn. An exception
  thrown in the task ends the run with it.
\<close>

definition event ::
  "bool \<Rightarrow> nat \<Rightarrow> Tasks \<times> Batch \<times> World \<Rightarrow> (error + Tasks \<times> Batch \<times> World) option" where
  "event verboseLogs i st =
     (if i < length (fst st)
      then (case snd (fst st ! i) of
              InFlight stage \<Rightarrow>
                Some (case resume verboseLogs (fst (fst st ! i)) stage (snd st) of
                        Inl e \<Rightarrow> Inl e
                      | Inr (t', bw') \<Rightarrow>
                          (if t' = Finished
                           then Inr (release verboseLogs
                                       ((fst st)[i := (fst (fst st ! i), t')], bw'))
                           else Inr ((fst st)[i := (fst (fst st ! i), t')], bw')))
            | Queued \<Rightarrow> None
            | Finished \<Rightarrow> None)
      else None)"

text \<open>
  The turns of the event loop between the last \<^verbatim>\<open>push\<close> and the drain, given as the
  list of the positions of the tasks resumed, in the order in which the file system calls
  resolve and the callbacks are run. Which list it is depends on the file system; every
  order of the suspended tasks is admitted here, the event loop's own among them.
\<close>

fun runEvents ::
  "bool \<Rightarrow> nat list \<Rightarrow> Tasks \<times> Batch \<times> World \<Rightarrow> (error + Tasks \<times> Batch \<times> World) option" where
  "runEvents verboseLogs [] st = Some (Inr st)"
| "runEvents verboseLogs (i # schedule) st =
     (case event verboseLogs i st of
        None \<Rightarrow> None
      | Some (Inl e) \<Rightarrow> Some (Inl e)
      | Some (Inr st') \<Rightarrow> runEvents verboseLogs schedule st')"

text \<open>
  Modelled from the spec: the reducer behind \<^verbatim>\<open>internalActions.deleteNodeManifests()\<close>
  is not in this file. The spec: "Clear all processed pending requests from shared state
  (the external store's collection is emptied as a single action)."
\<close>

fun dispatch :: "Action \<Rightarrow> World \<Rightarrow> World" where
  "dispatch DELETE_NODE_MANIFESTS w =
     w\<lparr> store := (store w)\<lparr> nodeManifests := [] \<rparr>,
        dispatched := dispatched w @ [DELETE_NODE_MANIFESTS] \<rparr>"

definition emptyBatch :: Batch where
  "emptyBatch =
     \<lparr> totalProcessedManifests = 0, totalFailedManifests = 0,
       nodeManifestPagePathMap = [], listOfUniqueErrorIds = [] \<rparr>"

text \<open>
  \<^verbatim>\<open>processNodeManifests\<close> under a schedule of the event loop; \<^verbatim>\<open>startTime\<close> and
  \<^verbatim>\<open>endTime\<close> are the two readings of \<^verbatim>\<open>Date.now()\<close>. With no pending manifest it
  returns before anything is scheduled. Otherwise all manifests are pushed (line 369-371),
  the function waits for the drain (lines 373-377) while the tasks take their turns, and
  goes on from line 379. The value is \<open>None\<close> when the list is not the schedule of a
  run to the drain: a turn for a task that is not in flight, or tasks left when it ends.
\<close>

definition processNodeManifests ::
  "nat list \<Rightarrow> int \<Rightarrow> int \<Rightarrow> World
     \<Rightarrow> (error + ((string \<times> string) list option \<times> World)) option" where
  "processNodeManifests schedule startTime endTime w =
     (let verboseLogs = (gatsby_log_level (proc w) = Some ''verbose''
                         \<or> VERBOSE_NODE_MANIFEST (proc w) = Some ''true'');
          pending = nodeManifests (store w);
          totalManifests = length pending
      in if totalManifests = 0 then Some (Inr (None, w))
         else (case runEvents verboseLogs schedule
                      (fold (push 25 verboseLogs) pending ([], emptyBatch, w)) of
                 None \<Rightarrow> None
               | Some (Inl e) \<Rightarrow> Some (Inl e)
               | Some (Inr (tasks, b, w1)) \<Rightarrow>
                   if drained tasks
                   then (let w2 = w1\<lparr> reporter := reporter w1 @
                                   [InfoWroteOut (totalProcessedManifests b)
                                      (totalFailedManifests b) (endTime - startTime),
                                    InfoWarnings
                                      (if \<not> verboseLogs \<and> length (listOfUniqueErrorIds b) > 0
                                       then listOfUniqueErrorIds b else [])] \<rparr>
                         in Some (Inr (Some (nodeManifestPagePathMap b),
                                       dispatch DELETE_NODE_MANIFESTS w2)))
                   else None))"

text \<open>The manifests in the order in which their tasks pass lines 310-312, where the
  page path map is set, under a schedule.\<close>

fun setOrder :: "bool \<Rightarrow> nat list \<Rightarrow> Tasks \<times> Batch \<times> World \<Rightarrow> INodeManifest list" where
  "setOrder verboseLogs [] st = []"
| "setOrder verboseLogs (i # schedule) st =
     (case event verboseLogs i st of
        Some (Inr st') \<Rightarrow>
          (case snd (fst st ! i) of
             InFlight (AwaitWriteJSON fr) \<Rightarrow>
               fst (fst st ! i) # setOrder verboseLogs schedule st'
           | _ \<Rightarrow> setOrder verboseLogs schedule st')
      | _ \<Rightarrow> [])"

section \<open>Example inputs\<close>

text \<open>
  A build and a development process, and a state with five pages: \<^verbatim>\<open>/post-1\<close> is owned
  by node \<^verbatim>\<open>n1\<close>; \<^verbatim>\<open>/fs-2\<close> and \<^verbatim>\<open>/ctx-2\<close> both carry \<^verbatim>\<open>n2\<close> in their
  context, the first created by \<^verbatim>\<open>gatsby-plugin-page-creator\<close>; \<^verbatim>\<open>n3\<close> is only
  tracked; \<^verbatim>\<open>n4\<close> is tracked with an empty set of paths.
\<close>

definition exBuild :: Process where
  "exBuild = \<lparr> NODE_ENV = Some ''production'', gatsby_log_level = None,
               VERBOSE_NODE_MANIFEST = None, platform = ''linux'' \<rparr>"

definition exDevelop :: Process where
  "exDevelop = \<lparr> NODE_ENV = Some ''development'', gatsby_log_level = None,
                 VERBOSE_NODE_MANIFEST = None, platform = ''linux'' \<rparr>"

definition exPage ::
  "string \<Rightarrow> string option \<Rightarrow> string option \<Rightarrow> string \<Rightarrow> string \<times> IGatsbyPage" where
  "exPage p own ctx creator =
     (p, \<lparr> path = p, ownerNodeId = own, context_id = ctx, pluginCreatorId = creator \<rparr>)"

definition exState :: GatsbyState where
  "exState =
     \<lparr> pages =
         [exPage ''/blog'' None None ''p-site'',
          exPage ''/post-1'' (Some ''n1'') (Some ''n1'') ''p-site'',
          exPage ''/fs-2'' None (Some ''n2'') ''p-fs'',
          exPage ''/ctx-2'' None (Some ''n2'') ''p-site'',
          exPage ''/list'' None None ''p-site''],
       nodes =
         [(''p-fs'', \<lparr> name = Some ''gatsby-plugin-page-creator'' \<rparr>),
          (''p-site'', \<lparr> name = Some ''default-site-plugin'' \<rparr>)],
       byNode =
         Some [(''n1'', [''/blog'', ''/post-1'', ''/list'']),
               (''n2'', [''/fs-2'', ''/ctx-2'']),
               (''n3'', [''/list'', ''/blog'']),
               (''n4'', [])],
       nodeManifests = [],
       program_directory = ''/site'' \<rparr>"

text \<open>A state whose page owned by \<^verbatim>\<open>n1\<close> has the empty string as its path, and the
  same state with no query tracking at all.\<close>

definition exStateEmptyPath :: GatsbyState where
  "exStateEmptyPath =
     \<lparr> pages =
         [exPage ''/blog'' None None ''p-site'',
          exPage [] (Some ''n1'') None ''p-site''],
       nodes = [(''p-site'', \<lparr> name = Some ''default-site-plugin'' \<rparr>)],
       byNode = Some [(''n1'', [''/blog'', []])],
       nodeManifests = [],
       program_directory = ''/site'' \<rparr>"

definition exStateUntracked :: GatsbyState where
  "exStateUntracked = exStateEmptyPath\<lparr> byNode := None \<rparr>"

text \<open>
  Stand-ins for \<^verbatim>\<open>path.join\<close> and \<^verbatim>\<open>path.dirname\<close> on POSIX, right where the
  segments need no normalising; a process on Windows, a verbose one and one that is both; and a world with
  four pending manifests: two for node \<^verbatim>\<open>n1\<close>, one for a node that the datastore
  does not have, and one for a node that no page is found for.
\<close>

definition exJoin :: "string list \<Rightarrow> string" where
  "exJoin segs =
     (case segs of [] \<Rightarrow> ''.'' | s # ss \<Rightarrow> foldl (\<lambda>a b. a @ ''/'' @ b) s ss)"

definition exDirname :: "string \<Rightarrow> string" where
  "exDirname p = rev (drop 1 (dropWhile (\<lambda>c. c \<noteq> CHR ''/'') (rev p)))"

definition exWin32 :: Process where
  "exWin32 = exBuild\<lparr> platform := ''win32'' \<rparr>"

definition exVerbose :: Process where
  "exVerbose = exBuild\<lparr> VERBOSE_NODE_MANIFEST := Some ''true'' \<rparr>"

definition exVerboseWin32 :: Process where
  "exVerboseWin32 = exWin32\<lparr> VERBOSE_NODE_MANIFEST := Some ''true'' \<rparr>"

definition exManifest :: "string \<Rightarrow> string \<Rightarrow> INodeManifest" where
  "exManifest mid nid =
     \<lparr> manifestId = mid, pluginName = ''gatsby-source-x'', node = \<lparr> node_id = nid \<rparr> \<rparr>"

definition exPending :: "INodeManifest list" where
  "exPending =
     [exManifest ''a:b/c'' ''n1'', exManifest ''gone'' ''n9'',
      exManifest ''post-1-v2'' ''n1'', exManifest ''m5'' ''n5'']"

definition exWorld :: "Process \<Rightarrow> World" where
  "exWorld p =
     \<lparr> proc = p,
       store = exState\<lparr> nodeManifests := exPending \<rparr>,
       dispatched = [],
       datastore =
         [(''n1'', \<lparr> name = None \<rparr>), (''n2'', \<lparr> name = None \<rparr>),
          (''n3'', \<lparr> name = None \<rparr>), (''n5'', \<lparr> name = None \<rparr>)],
       files = Map.empty,
       dirs = {},
       reporter = [],
       path_join = exJoin,
       path_dirname = exDirname \<rparr>"

section \<open>Definitions for the statements and proofs\<close>

text \<open>
  The invariant of the loop of \<^const>\<open>findPageOwnedByNodeId\<close>: as long as no owner page
  path is recorded the classification is the one the loop started with; once one is
  recorded, it is the path of a page of the state that matches the node id by
  \<^verbatim>\<open>ownerNodeId\<close> or \<^verbatim>\<open>context.id\<close>, and the classification is one of the three the
  loop assigns.
\<close>

definition scanInv :: "GatsbyState \<Rightarrow> string \<Rightarrow> FoundPageBy \<Rightarrow> Scan \<Rightarrow> bool" where
  "scanInv state nodeId f0 s =
     (case ownerPagePath s of
        None \<Rightarrow> scanFoundPageBy s = f0
      | Some p \<Rightarrow> scanFoundPageBy s \<in> {OwnerNodeId, FilesystemRouteApi, ContextId}
                  \<and> (\<exists>kv\<in>set (pages state).
                        p = path (snd kv)
                        \<and> (ownerNodeId (snd kv) = Some nodeId
                            \<or> context_id (snd kv) = Some nodeId)))"

text \<open>The table of diagnostic ids as the specification gives it, by classification.\<close>

fun specLogId :: "FoundPageBy \<Rightarrow> string" where
  "specLogId NoneFound = ''11801''"
| "specLogId ContextId = ''11802''"
| "specLogId QueryTracking = ''11803''"
| "specLogId FilesystemRouteApi = ''success''"
| "specLogId OwnerNodeId = ''success''"

text \<open>The part of the world that processing a manifest never changes.\<close>

definition sameEnvironment :: "World \<Rightarrow> World \<Rightarrow> bool" where
  "sameEnvironment w w' =
     (proc w' = proc w \<and> store w' = store w \<and> datastore w' = datastore w
      \<and> path_join w' = path_join w \<and> path_dirname w' = path_dirname w
      \<and> dispatched w' = dispatched w)"

text \<open>What a request adds to the page path map: nothing when its node is missing or no
  page path is found, else the pair of the path and the file name base.\<close>

definition pagePathEntry :: "World \<Rightarrow> INodeManifest \<Rightarrow> (string \<times> string) option" where
  "pagePathEntry w m =
     (if getNode w (node_id (node m)) = None then None
      else (case page_path (findPageOwnedByNodeId (proc w) (store w) (node_id (node m))) of
              None \<Rightarrow> None
            | Some p \<Rightarrow> Some (p, fileNameBase (proc w) m)))"

text \<open>
  For a batch started in the world \<open>w\<close>: whether the node of a manifest exists, the page
  found for it, the manifest written for it, and the local variables its task holds
  across the file system calls.
\<close>

definition presentIn :: "World \<Rightarrow> INodeManifest \<Rightarrow> bool" where
  "presentIn w m = (getNode w (node_id (node m)) \<noteq> None)"

definition foundFor :: "World \<Rightarrow> INodeManifest \<Rightarrow> FoundPage" where
  "foundFor w m = findPageOwnedByNodeId (proc w) (store w) (node_id (node m))"

definition artifactOf :: "World \<Rightarrow> INodeManifest \<Rightarrow> INodeManifestOut" where
  "artifactOf w m =
     \<lparr> out_page_path = page_path (foundFor w m), out_node = node m,
       out_foundPageBy = foundPageBy (foundFor w m) \<rparr>"

definition frameOf :: "World \<Rightarrow> INodeManifest \<Rightarrow> Frame" where
  "frameOf w m =
     \<lparr> finalManifest = artifactOf w m,
       heldFileNameBase = fileNameBase (proc w) m,
       heldManifestFilePath = manifestFilePath w m,
       manifestFileDir = path_dirname w (manifestFilePath w m) \<rparr>"

text \<open>What the task of a manifest gives to the reporter: after
  \<^verbatim>\<open>findPageOwnedByNodeId\<close>, and in all.\<close>

definition warnedBy :: "bool \<Rightarrow> World \<Rightarrow> INodeManifest \<Rightarrow> LogEntry list" where
  "warnedBy verbose w m =
     (if verbose \<and> specLogId (foundPageBy (foundFor w m)) \<noteq> ''success''
      then [ReporterError (specLogId (foundPageBy (foundFor w m)))
              (MappingContext m (page_path (foundFor w m)))]
      else [])"

definition reportedBy :: "bool \<Rightarrow> World \<Rightarrow> INodeManifest \<Rightarrow> LogEntry list" where
  "reportedBy verbose w m =
     (if \<not> verbose then []
      else if presentIn w m
      then warnedBy verbose w m @ [InfoCreated (pluginName m) (fileNameBase (proc w) m)]
      else [ReporterError ''11804'' (NoNodeContext (pluginName m) (node_id (node m)))])"

text \<open>How far a task has come, and that what it holds at its stage is what the world
  \<open>w\<close> determines.\<close>

fun rank :: "TaskState \<Rightarrow> nat" where
  "rank Queued = 0"
| "rank (InFlight (AwaitFindPage f)) = 1"
| "rank (InFlight (AwaitEnsureDir fr)) = 2"
| "rank (InFlight (AwaitWriteJSON fr)) = 3"
| "rank (InFlight (AwaitProcessed r)) = 4"
| "rank (InFlight AwaitImmediate) = 5"
| "rank Finished = 6"

fun taskOK :: "World \<Rightarrow> INodeManifest \<Rightarrow> TaskState \<Rightarrow> bool" where
  "taskOK w m Queued = True"
| "taskOK w m (InFlight (AwaitFindPage f)) = (presentIn w m \<and> f = foundFor w m)"
| "taskOK w m (InFlight (AwaitEnsureDir fr)) = (presentIn w m \<and> fr = frameOf w m)"
| "taskOK w m (InFlight (AwaitWriteJSON fr)) = (presentIn w m \<and> fr = frameOf w m)"
| "taskOK w m (InFlight (AwaitProcessed r)) =
     (r = (if presentIn w m then Some (artifactOf w m) else None))"
| "taskOK w m (InFlight AwaitImmediate) = True"
| "taskOK w m Finished = True"

text \<open>The next step of a task, whatever its state: its start when it waits in the
  queue, its resumption when it is in flight.\<close>

fun fire ::
  "bool \<Rightarrow> INodeManifest \<Rightarrow> TaskState \<Rightarrow> Batch \<times> World
     \<Rightarrow> error + (TaskState \<times> Batch \<times> World)" where
  "fire v m Queued bw = (case startTask v m bw of (stage, bw') \<Rightarrow> Inr (InFlight stage, bw'))"
| "fire v m (InFlight stage) bw = resume v m stage bw"
| "fire v m Finished bw = Inr (Finished, bw)"

definition fireAt ::
  "bool \<Rightarrow> nat \<Rightarrow> Tasks \<times> Batch \<times> World \<Rightarrow> error + Tasks \<times> Batch \<times> World" where
  "fireAt v k st =
     (case fire v (fst (fst st ! k)) (snd (fst st ! k)) (snd st) of
        Inl e \<Rightarrow> Inl e
      | Inr (t', bw') \<Rightarrow> Inr ((fst st)[k := (fst (fst st ! k), t')], bw'))"

text \<open>What the tasks have done so far, by their states: the two counters, the entries
  given to the reporter, the directories ensured, and the manifests written.\<close>

definition doneProcessed :: "World \<Rightarrow> INodeManifest \<times> TaskState \<Rightarrow> nat" where
  "doneProcessed w mt = (if 5 \<le> rank (snd mt) \<and> presentIn w (fst mt) then 1 else 0)"

definition doneFailed :: "World \<Rightarrow> INodeManifest \<times> TaskState \<Rightarrow> nat" where
  "doneFailed w mt = (if 5 \<le> rank (snd mt) \<and> \<not> presentIn w (fst mt) then 1 else 0)"

definition doneReported :: "bool \<Rightarrow> World \<Rightarrow> INodeManifest \<times> TaskState \<Rightarrow> LogEntry multiset" where
  "doneReported v w mt =
     (if \<not> v then {#}
      else if presentIn w (fst mt)
      then (if 2 \<le> rank (snd mt) then mset (warnedBy v w (fst mt)) else {#})
           + (if 4 \<le> rank (snd mt)
              then {#InfoCreated (pluginName (fst mt)) (fileNameBase (proc w) (fst mt))#}
              else {#})
      else (if 1 \<le> rank (snd mt)
            then {#ReporterError ''11804''
                     (NoNodeContext (pluginName (fst mt)) (node_id (node (fst mt))))#}
            else {#}))"

definition doneDirs :: "World \<Rightarrow> INodeManifest \<times> TaskState \<Rightarrow> string set" where
  "doneDirs w mt =
     (if 3 \<le> rank (snd mt) \<and> presentIn w (fst mt)
      then {path_dirname w (manifestFilePath w (fst mt))} else {})"

definition doneWritten :: "World \<Rightarrow> INodeManifest \<times> TaskState \<Rightarrow> INodeManifest multiset" where
  "doneWritten w mt = (if 4 \<le> rank (snd mt) \<and> presentIn w (fst mt) then {#fst mt#} else {#})"

definition upd :: "World \<Rightarrow> INodeManifest \<Rightarrow> (string \<times> string) list \<Rightarrow> (string \<times> string) list" where
  "upd w m pm =
     (case pagePathEntry w m of None \<Rightarrow> pm | Some (p, base) \<Rightarrow> AList.update p base pm)"

text \<open>The invariant of a batch started in the world \<open>w\<close>.\<close>

definition batchInv :: "bool \<Rightarrow> World \<Rightarrow> Tasks \<times> Batch \<times> World \<Rightarrow> bool" where
  "batchInv v w st =
     (let tasks = fst st; b = fst (snd st); wc = snd (snd st)
      in sameEnvironment w wc
         \<and> list_all (\<lambda>mt. taskOK w (fst mt) (snd mt)) tasks
         \<and> totalProcessedManifests b = sum_list (map (doneProcessed w) tasks)
         \<and> totalFailedManifests b = sum_list (map (doneFailed w) tasks)
         \<and> mset (reporter wc) = mset (reporter w) + sum_list (map (doneReported v w) tasks)
         \<and> dirs wc = dirs w \<union> (\<Union>mt\<in>set tasks. doneDirs w mt)
         \<and> (\<forall>q. if q \<in> manifestFilePath w ` set_mset (sum_list (map (doneWritten w) tasks))
                 then \<exists>m\<in>#sum_list (map (doneWritten w) tasks).
                        manifestFilePath w m = q \<and> files wc q = Some (artifactOf w m)
                 else files wc q = files w q))"

text \<open>The diagnostic id that the task of a manifest adds to the set of ids when the logs
  are not verbose, and the ids added so far by a task, by its state.\<close>

definition idsOf :: "bool \<Rightarrow> World \<Rightarrow> INodeManifest \<Rightarrow> string set" where
  "idsOf v w m =
     (if v then {}
      else if presentIn w m then {specLogId (foundPageBy (foundFor w m))} - {''success''}
      else {''11804''})"

definition doneIds :: "bool \<Rightarrow> World \<Rightarrow> INodeManifest \<times> TaskState \<Rightarrow> string set" where
  "doneIds v w mt =
     (if (if presentIn w (fst mt) then 2 else 1) \<le> rank (snd mt) then idsOf v w (fst mt) else {})"

definition idsInv :: "bool \<Rightarrow> World \<Rightarrow> Tasks \<times> Batch \<times> World \<Rightarrow> bool" where
  "idsInv v w st =
     (distinct (listOfUniqueErrorIds (fst (snd st)))
      \<and> set (listOfUniqueErrorIds (fst (snd st))) = (\<Union>mt\<in>set (fst st). doneIds v w mt))"

definition runInv :: "bool \<Rightarrow> World \<Rightarrow> Tasks \<times> Batch \<times> World \<Rightarrow> bool" where
  "runInv v w st = (batchInv v w st \<and> idsInv v w st)"

text \<open>Every task has a next step but the finished ones, so this much is left to do.\<close>

definition remaining :: "Tasks \<Rightarrow> nat" where
  "remaining tasks = sum_list (map (\<lambda>mt. 6 - rank (snd mt)) tasks)"

definition queueInv :: "Tasks \<Rightarrow> bool" where
  "queueInv tasks =
     (list_ex (\<lambda>mt. snd mt = Queued) tasks \<longrightarrow> list_ex (\<lambda>mt. isInFlight (snd mt)) tasks)"

text \<open>The flag \<^verbatim>\<open>verboseLogs\<close> of a batch (lines 326-328), the queue after the last
  \<^verbatim>\<open>push\<close> (lines 369-371), and the order in which the tasks of a run pass lines
  310-312.\<close>

definition verboseLogsOf :: "World \<Rightarrow> bool" where
  "verboseLogsOf w =
     (gatsby_log_level (proc w) = Some ''verbose''
      \<or> VERBOSE_NODE_MANIFEST (proc w) = Some ''true'')"

definition pushed :: "World \<Rightarrow> Tasks \<times> Batch \<times> World" where
  "pushed w =
     fold (push 25 (verboseLogsOf w)) (nodeManifests (store w)) ([], emptyBatch, w)"

definition completionOrder :: "nat list \<Rightarrow> World \<Rightarrow> INodeManifest list" where
  "completionOrder schedule w = setOrder (verboseLogsOf w) schedule (pushed w)"

section \<open>The loop of the resolver\<close>

lemmas ex_defs =
  exBuild_def exDevelop_def exPage_def exState_def exStateEmptyPath_def exStateUntracked_def

lemmas resolver_defs =
  findPageOwnedByNodeId_def pagePathSetOrMap_def trackedPaths_def defaultPagePath_def
  scanInit_def scanStep_def foundOwnerNodeIdAt_def foundPageIdInContextAt_def
  pageCreatedByFilesystemPlugin_def Let_def

lemma scanCandidates_found [simp]:
  "foundOwnerNodeId s \<Longrightarrow> scanCandidates state nodeId s ps = s"
  by (cases ps) simp_all

lemma scanCandidates_append:
  "scanCandidates state nodeId s (xs @ ys) =
     scanCandidates state nodeId (scanCandidates state nodeId s xs) ys"
  by (induction xs arbitrary: s) simp_all

lemma scanStep_owner:
  assumes "map_of (pages state) c = Some pg" and "ownerNodeId pg = Some nodeId"
  shows "scanStep state nodeId s c =
           \<lparr> scanFoundPageBy = OwnerNodeId, ownerPagePath = Some (path pg),
             foundOwnerNodeId = True \<rparr>"
  using assms by (simp add: scanStep_def Let_def foundOwnerNodeIdAt_def)

lemma scanStep_context:
  assumes "map_of (pages state) c = Some pg" and "ownerNodeId pg \<noteq> Some nodeId"
    and "context_id pg = Some nodeId"
  shows "scanStep state nodeId s c =
           \<lparr> scanFoundPageBy =
               (if pageCreatedByFilesystemPlugin state pg then FilesystemRouteApi else ContextId),
             ownerPagePath = Some (path pg), foundOwnerNodeId = False \<rparr>"
  using assms
  by (simp add: scanStep_def Let_def foundOwnerNodeIdAt_def foundPageIdInContextAt_def)

lemma scanStep_no_owner:
  "\<not> foundOwnerNodeIdAt state nodeId c \<Longrightarrow> \<not> foundOwnerNodeId (scanStep state nodeId s c)"
  by (simp add: scanStep_def Let_def)

lemma scanStep_no_match:
  assumes "\<not> foundOwnerNodeIdAt state nodeId c" and "\<not> foundPageIdInContextAt state nodeId c"
    and "\<not> foundOwnerNodeId s"
  shows "scanStep state nodeId s c = s"
  using assms by (cases s) (simp add: scanStep_def Let_def split: option.splits)

lemma scanCandidates_no_owner:
  assumes "\<forall>x\<in>set xs. \<not> foundOwnerNodeIdAt state nodeId x" and "\<not> foundOwnerNodeId s"
  shows "\<not> foundOwnerNodeId (scanCandidates state nodeId s xs)"
  using assms by (induction xs arbitrary: s) (simp_all add: scanStep_no_owner)

lemma scanCandidates_no_match:
  assumes "\<forall>x\<in>set xs. \<not> foundOwnerNodeIdAt state nodeId x
                        \<and> \<not> foundPageIdInContextAt state nodeId x"
    and "\<not> foundOwnerNodeId s"
  shows "scanCandidates state nodeId s xs = s"
  using assms by (induction xs arbitrary: s) (simp_all add: scanStep_no_match)

lemma scanInit_not_found [simp]: "\<not> foundOwnerNodeId (scanInit state nodeId)"
  by (simp add: scanInit_def)

lemma scanStep_inv:
  assumes "scanInv state nodeId f0 s"
  shows "scanInv state nodeId f0 (scanStep state nodeId s c)"
proof (cases "map_of (pages state) c")
  case None
  then show ?thesis using assms
    by (simp add: scanStep_def Let_def scanInv_def foundOwnerNodeIdAt_def
        foundPageIdInContextAt_def split: option.splits)
next
  case (Some pg)
  then have "(c, pg) \<in> set (pages state)" by (rule map_of_SomeD)
  then have "ownerNodeId pg = Some nodeId \<or> context_id pg = Some nodeId \<Longrightarrow>
             \<exists>kv\<in>set (pages state). path pg = path (snd kv)
               \<and> (ownerNodeId (snd kv) = Some nodeId \<or> context_id (snd kv) = Some nodeId)"
    by force
  then show ?thesis using assms Some
    by (simp add: scanStep_def Let_def scanInv_def foundOwnerNodeIdAt_def
        foundPageIdInContextAt_def split: option.splits)
qed

lemma scanCandidates_inv:
  "scanInv state nodeId f0 s \<Longrightarrow> scanInv state nodeId f0 (scanCandidates state nodeId s cs)"
  by (induction cs arbitrary: s) (simp_all add: scanStep_inv)

lemma scanInit_inv:
  "scanInv state nodeId (scanFoundPageBy (scanInit state nodeId)) (scanInit state nodeId)"
  by (simp add: scanInv_def scanInit_def)

section \<open>The resolver's order of precedence\<close>


text \<open>
  Wherever the path of the owning page is not the empty string, the code does what the
  claim says. Let the candidates be \<open>xs @ c # ys\<close>, where no candidate of \<open>xs\<close> looks up
  to a page with \<^verbatim>\<open>ownerNodeId === nodeId\<close> and \<open>c\<close> looks up to the page \<open>pg\<close> that
  has it. Then \<^verbatim>\<open>foundPageBy\<close> is \<^verbatim>\<open>ownerNodeId\<close>; the path returned is the path of
  \<open>pg\<close> unless that path is the empty string; and the scan stops at \<open>c\<close>: the candidates
  \<open>ys\<close> after it have no effect, whatever they match.
\<close>

lemma findPageOwnedByNodeId_owner_first:
  assumes cands: "pagePathSetOrMap pr state nodeId = Some (xs @ c # ys)"
    and before: "\<forall>x\<in>set xs. \<not> foundOwnerNodeIdAt state nodeId x"
    and page: "map_of (pages state) c = Some pg"
    and owner: "ownerNodeId pg = Some nodeId"
  shows "foundPageBy (findPageOwnedByNodeId pr state nodeId) = OwnerNodeId
       \<and> (path pg \<noteq> [] \<longrightarrow>
            page_path (findPageOwnedByNodeId pr state nodeId) = Some (path pg))
       \<and> scanCandidates state nodeId (scanInit state nodeId) (xs @ c # ys)
           = scanCandidates state nodeId (scanInit state nodeId) (xs @ [c])"
proof -
  let ?s = "scanCandidates state nodeId (scanInit state nodeId) xs"
  have nf: "\<not> foundOwnerNodeId ?s"
    using before by (simp add: scanCandidates_no_owner)
  have stop: "scanCandidates state nodeId (scanInit state nodeId) (xs @ c # zs)
        = \<lparr> scanFoundPageBy = OwnerNodeId, ownerPagePath = Some (path pg),
            foundOwnerNodeId = True \<rparr>" for zs
    using nf by (simp add: scanCandidates_append scanStep_owner [OF page owner])
  show ?thesis
    using cands stop [of ys] stop [of "[]"]
    by (simp add: findPageOwnedByNodeId_def Let_def)
qed

text \<open>An instance: node \<^verbatim>\<open>n1\<close> in a build, tracked on \<^verbatim>\<open>/blog\<close>, \<^verbatim>\<open>/post-1\<close>
  (which it owns) and \<^verbatim>\<open>/list\<close>.\<close>

lemma findPageOwnedByNodeId_owner_first_instance:
  "foundPageBy (findPageOwnedByNodeId exBuild exState ''n1'') = OwnerNodeId
   \<and> page_path (findPageOwnedByNodeId exBuild exState ''n1'') = Some ''/post-1''
   \<and> scanCandidates exState ''n1'' (scanInit exState ''n1'') [''/blog'', ''/post-1'', ''/list'']
       = scanCandidates exState ''n1'' (scanInit exState ''n1'') [''/blog'', ''/post-1'']"
proof -
  let ?pg = "snd (exPage ''/post-1'' (Some ''n1'') (Some ''n1'') ''p-site'')"
  have h1: "pagePathSetOrMap exBuild exState ''n1'' = Some ([''/blog''] @ ''/post-1'' # [''/list''])"
    by (simp add: ex_defs pagePathSetOrMap_def trackedPaths_def)
  have h2: "\<forall>x\<in>set [''/blog'']. \<not> foundOwnerNodeIdAt exState ''n1'' x"
    by (simp add: ex_defs foundOwnerNodeIdAt_def)
  have h3: "map_of (pages exState) ''/post-1'' = Some ?pg"
    by (simp add: ex_defs)
  have h4: "ownerNodeId ?pg = Some ''n1''"
    by (simp add: ex_defs)
  have h5: "path ?pg = ''/post-1''"
    by (simp add: ex_defs)
  show ?thesis
    using findPageOwnedByNodeId_owner_first [OF h1 h2 h3 h4] by (simp add: h5)
qed

text \<open>
  Claim C2 as stated fails on the code. In a build, node \<^verbatim>\<open>n2\<close> is tracked on
  \<^verbatim>\<open>/fs-2\<close> and \<^verbatim>\<open>/ctx-2\<close>; neither page has an owner, both have
  \<^verbatim>\<open>context.id = n2\<close>, and \<^verbatim>\<open>/fs-2\<close> was created by \<^verbatim>\<open>gatsby-plugin-page-creator\<close>.
  The result is not the path of \<^verbatim>\<open>/fs-2\<close> with \<^verbatim>\<open>filesystem-route-api\<close>: the later
  match \<^verbatim>\<open>/ctx-2\<close> overwrites both.
\<close>

theorem findPageOwnedByNodeId_context_overwritten:
  "pagePathSetOrMap exBuild exState ''n2'' = Some [''/fs-2'', ''/ctx-2'']
   \<and> \<not> foundOwnerNodeIdAt exState ''n2'' ''/fs-2''
   \<and> \<not> foundOwnerNodeIdAt exState ''n2'' ''/ctx-2''
   \<and> map_of (pages exState) ''/fs-2'' = Some (snd (exPage ''/fs-2'' None (Some ''n2'') ''p-fs''))
   \<and> context_id (snd (exPage ''/fs-2'' None (Some ''n2'') ''p-fs'')) = Some ''n2''
   \<and> pageCreatedByFilesystemPlugin exState (snd (exPage ''/fs-2'' None (Some ''n2'') ''p-fs''))
   \<and> findPageOwnedByNodeId exBuild exState ''n2''
       = \<lparr> page_path = Some ''/ctx-2'', foundPageBy = ContextId \<rparr>"
  by (simp add: ex_defs resolver_defs)

text \<open>
  Claim C2, amended. Let no candidate look up to a page with
  \<^verbatim>\<open>ownerNodeId === nodeId\<close>, and let \<open>c\<close> be the last candidate in iteration order
  that looks up to a page \<open>pg\<close> with \<^verbatim>\<open>context.id === nodeId\<close>. Then \<^verbatim>\<open>foundPageBy\<close> is
  \<^verbatim>\<open>filesystem-route-api\<close> when the node that \<open>pg\<close>'s \<^verbatim>\<open>pluginCreatorId\<close> looks up to is
  named \<^verbatim>\<open>gatsby-plugin-page-creator\<close> and \<^verbatim>\<open>context.id\<close> otherwise, and the path
  returned is the path of \<open>pg\<close> provided that path is not the empty string.
\<close>

theorem findPageOwnedByNodeId_context_last:
  assumes cands: "pagePathSetOrMap pr state nodeId = Some (xs @ c # ys)"
    and noowner: "\<forall>x\<in>set (xs @ c # ys). \<not> foundOwnerNodeIdAt state nodeId x"
    and page: "map_of (pages state) c = Some pg"
    and ctx: "context_id pg = Some nodeId"
    and later: "\<forall>y\<in>set ys. \<not> foundPageIdInContextAt state nodeId y"
  shows "foundPageBy (findPageOwnedByNodeId pr state nodeId) =
           (if (case map_of (nodes state) (pluginCreatorId pg) of
                  None \<Rightarrow> None | Some n \<Rightarrow> name n) = Some ''gatsby-plugin-page-creator''
            then FilesystemRouteApi else ContextId)
       \<and> (path pg \<noteq> [] \<longrightarrow>
            page_path (findPageOwnedByNodeId pr state nodeId) = Some (path pg))"
proof -
  let ?s = "scanCandidates state nodeId (scanInit state nodeId) xs"
  let ?t = "\<lparr> scanFoundPageBy =
               (if pageCreatedByFilesystemPlugin state pg then FilesystemRouteApi else ContextId),
             ownerPagePath = Some (path pg), foundOwnerNodeId = False \<rparr>"
  have nf: "\<not> foundOwnerNodeId ?s"
    using noowner by (simp add: scanCandidates_no_owner)
  have "\<not> foundOwnerNodeIdAt state nodeId c"
    using noowner by simp
  then have notowner: "ownerNodeId pg \<noteq> Some nodeId"
    using page by (simp add: foundOwnerNodeIdAt_def)
  have step: "scanStep state nodeId ?s c = ?t"
    by (rule scanStep_context [OF page notowner ctx])
  have rest: "scanCandidates state nodeId ?t ys = ?t"
    using noowner later by (intro scanCandidates_no_match) simp_all
  have "scanCandidates state nodeId (scanInit state nodeId) (xs @ c # ys) = ?t"
    using nf step rest by (simp add: scanCandidates_append)
  then show ?thesis
    using cands
    by (simp add: findPageOwnedByNodeId_def Let_def pageCreatedByFilesystemPlugin_def)
qed

text \<open>Witness for C2: node \<^verbatim>\<open>n2\<close> in a build; the last context match is \<^verbatim>\<open>/ctx-2\<close>,
  created by the site's own plugin.\<close>

theorem findPageOwnedByNodeId_context_last_witness:
  "foundPageBy (findPageOwnedByNodeId exBuild exState ''n2'') = ContextId
   \<and> page_path (findPageOwnedByNodeId exBuild exState ''n2'') = Some ''/ctx-2''"
proof -
  let ?pg = "snd (exPage ''/ctx-2'' None (Some ''n2'') ''p-site'')"
  have h1: "pagePathSetOrMap exBuild exState ''n2'' = Some ([''/fs-2''] @ ''/ctx-2'' # [])"
    by (simp add: ex_defs pagePathSetOrMap_def trackedPaths_def)
  have h2: "\<forall>x\<in>set ([''/fs-2''] @ ''/ctx-2'' # []). \<not> foundOwnerNodeIdAt exState ''n2'' x"
    by (simp add: ex_defs foundOwnerNodeIdAt_def)
  have h3: "map_of (pages exState) ''/ctx-2'' = Some ?pg"
    by (simp add: ex_defs)
  have h4: "context_id ?pg = Some ''n2''"
    by (simp add: ex_defs)
  have h5: "\<forall>y\<in>set []. \<not> foundPageIdInContextAt exState ''n2'' y"
    by simp
  have h6: "path ?pg = ''/ctx-2''" and h7: "pluginCreatorId ?pg = ''p-site''"
    by (simp_all add: ex_defs)
  have h8: "map_of (nodes exState) ''p-site'' = Some \<lparr> name = Some ''default-site-plugin'' \<rparr>"
    by (simp add: ex_defs)
  show ?thesis
    using findPageOwnedByNodeId_context_last [OF h1 h2 h3 h4 h5] by (simp add: h6 h7 h8)
qed

text \<open>
  Claim C3 as stated fails on the code. Node \<^verbatim>\<open>n4\<close> is present in \<^verbatim>\<open>byNode\<close> with
  an empty set of paths and matches no page; the result is \<^verbatim>\<open>none\<close> with a null path, in
  a build and in development, not \<^verbatim>\<open>queryTracking\<close>.
\<close>

theorem findPageOwnedByNodeId_tracked_empty_set:
  "trackedPaths exState ''n4'' = Some []
   \<and> pagePathSetOrMap exBuild exState ''n4'' = Some []
   \<and> findPageOwnedByNodeId exBuild exState ''n4''
       = \<lparr> page_path = None, foundPageBy = NoneFound \<rparr>
   \<and> findPageOwnedByNodeId exDevelop exState ''n4''
       = \<lparr> page_path = None, foundPageBy = NoneFound \<rparr>"
  by (simp add: ex_defs resolver_defs)

text \<open>
  Claim C3, amended. Let the set of paths tracked for \<open>nodeId\<close> in \<^verbatim>\<open>byNode\<close> be not
  empty, with a first entry \<open>p\<close> that is not the empty string, and let no candidate look
  up to a page with \<^verbatim>\<open>ownerNodeId === nodeId\<close> or \<^verbatim>\<open>context.id === nodeId\<close>. Then the
  result is \<^verbatim>\<open>queryTracking\<close> with path \<open>p\<close>, whatever the process is: in a build and in
  development.
\<close>

theorem findPageOwnedByNodeId_queryTracking:
  assumes tracked: "trackedPaths state nodeId = Some (p # ps)"
    and nonempty: "p \<noteq> []"
    and nomatch: "\<forall>cs. pagePathSetOrMap pr state nodeId = Some cs \<longrightarrow>
                    (\<forall>c\<in>set cs. \<not> foundOwnerNodeIdAt state nodeId c
                                \<and> \<not> foundPageIdInContextAt state nodeId c)"
  shows "findPageOwnedByNodeId pr state nodeId =
           \<lparr> page_path = Some p, foundPageBy = QueryTracking \<rparr>"
proof -
  have d: "defaultPagePath state nodeId = Some p"
    using tracked by (simp add: defaultPagePath_def)
  have i: "scanInit state nodeId =
             \<lparr> scanFoundPageBy = QueryTracking, ownerPagePath = None, foundOwnerNodeId = False \<rparr>"
    using d nonempty by (simp add: scanInit_def)
  show ?thesis
  proof (cases "pagePathSetOrMap pr state nodeId")
    case None
    then show ?thesis using d i nonempty by (simp add: findPageOwnedByNodeId_def Let_def)
  next
    case (Some cs)
    then have "scanCandidates state nodeId (scanInit state nodeId) cs = scanInit state nodeId"
      using nomatch by (intro scanCandidates_no_match) simp_all
    then show ?thesis using Some d i nonempty by (simp add: findPageOwnedByNodeId_def Let_def)
  qed
qed

text \<open>Witness for C3: node \<^verbatim>\<open>n3\<close>, tracked on \<^verbatim>\<open>/list\<close> and \<^verbatim>\<open>/blog\<close>, in
  development, where the candidates are all five pages.\<close>

theorem findPageOwnedByNodeId_queryTracking_witness:
  "findPageOwnedByNodeId exDevelop exState ''n3''
     = \<lparr> page_path = Some ''/list'', foundPageBy = QueryTracking \<rparr>"
proof -
  have h1: "trackedPaths exState ''n3'' = Some (''/list'' # [''/blog''])"
    by (simp add: ex_defs trackedPaths_def)
  have h2: "''/list'' \<noteq> []"
    by simp
  have h3: "\<forall>cs. pagePathSetOrMap exDevelop exState ''n3'' = Some cs \<longrightarrow>
              (\<forall>c\<in>set cs. \<not> foundOwnerNodeIdAt exState ''n3'' c
                          \<and> \<not> foundPageIdInContextAt exState ''n3'' c)"
    by (simp add: ex_defs pagePathSetOrMap_def foundOwnerNodeIdAt_def
        foundPageIdInContextAt_def)
  show ?thesis
    by (rule findPageOwnedByNodeId_queryTracking [OF h1 h2 h3])
qed


text \<open>
  The last part of the claim holds in every state: for a node id absent from the tracking
  index, with no candidate matching by \<^verbatim>\<open>ownerNodeId\<close> or \<^verbatim>\<open>context.id\<close>, the result
  is \<^verbatim>\<open>none\<close> with a null path.
\<close>

lemma findPageOwnedByNodeId_none_found:
  assumes t: "trackedPaths state nodeId = None"
    and c: "\<And>cs. pagePathSetOrMap pr state nodeId = Some cs \<Longrightarrow>
              \<forall>c\<in>set cs. \<not> foundOwnerNodeIdAt state nodeId c
                         \<and> \<not> foundPageIdInContextAt state nodeId c"
  shows "findPageOwnedByNodeId pr state nodeId = \<lparr> page_path = None, foundPageBy = NoneFound \<rparr>"
proof -
  have d: "defaultPagePath state nodeId = None"
    using t by (simp add: defaultPagePath_def)
  have i: "scanInit state nodeId =
             \<lparr> scanFoundPageBy = NoneFound, ownerPagePath = None, foundOwnerNodeId = False \<rparr>"
    using d by (simp add: scanInit_def)
  show ?thesis
  proof (cases "pagePathSetOrMap pr state nodeId")
    case None
    then show ?thesis using d i by (simp add: findPageOwnedByNodeId_def Let_def)
  next
    case (Some cs)
    then have "scanCandidates state nodeId (scanInit state nodeId) cs = scanInit state nodeId"
      using c [OF Some] by (intro scanCandidates_no_match) simp_all
    then show ?thesis using Some d i by (simp add: findPageOwnedByNodeId_def Let_def)
  qed
qed

text \<open>
  And the first part holds for a node id unless a page that matches it by
  \<^verbatim>\<open>ownerNodeId\<close> or \<^verbatim>\<open>context.id\<close> has the empty string as its path: the path
  returned is non-null if and only if \<^verbatim>\<open>foundPageBy\<close> is not \<^verbatim>\<open>none\<close>.
\<close>

lemma findPageOwnedByNodeId_path_iff:
  assumes paths: "\<forall>kv\<in>set (pages state).
                    ownerNodeId (snd kv) = Some nodeId \<or> context_id (snd kv) = Some nodeId
                    \<longrightarrow> path (snd kv) \<noteq> []"
  shows "(page_path (findPageOwnedByNodeId pr state nodeId) \<noteq> None)
           = (foundPageBy (findPageOwnedByNodeId pr state nodeId) \<noteq> NoneFound)"
proof -
  define s where "s = (case pagePathSetOrMap pr state nodeId of
                 None \<Rightarrow> scanInit state nodeId
               | Some candidates \<Rightarrow> scanCandidates state nodeId (scanInit state nodeId) candidates)"
  have inv: "scanInv state nodeId (scanFoundPageBy (scanInit state nodeId)) s"
    unfolding s_def by (simp add: scanInit_inv scanCandidates_inv split: option.split)
  have r: "findPageOwnedByNodeId pr state nodeId =
        \<lparr> page_path = (let pp = (if truthy (ownerPagePath s) then ownerPagePath s
                                 else defaultPagePath state nodeId)
                       in if truthy pp then pp else None),
          foundPageBy = scanFoundPageBy s \<rparr>"
    by (simp add: findPageOwnedByNodeId_def Let_def s_def)
  show ?thesis
  proof (cases "ownerPagePath s")
    case None
    then have "scanFoundPageBy s = scanFoundPageBy (scanInit state nodeId)"
      using inv by (simp add: scanInv_def)
    then show ?thesis using None
      by (cases "defaultPagePath state nodeId") (simp_all add: r Let_def scanInit_def)
  next
    case (Some p)
    then have "p \<noteq> []" and "scanFoundPageBy s \<noteq> NoneFound"
      using inv paths by (auto simp: scanInv_def)
    then show ?thesis using Some by (simp add: r Let_def)
  qed
qed

text \<open>Instances: node \<^verbatim>\<open>n5\<close>, which nothing tracks and no page mentions, and node
  \<^verbatim>\<open>n1\<close>, which owns \<^verbatim>\<open>/post-1\<close>, in development in the example state.\<close>

lemma findPageOwnedByNodeId_outcome_instance:
  "findPageOwnedByNodeId exDevelop exState ''n5''
     = \<lparr> page_path = None, foundPageBy = NoneFound \<rparr>
   \<and> (page_path (findPageOwnedByNodeId exDevelop exState ''n1'') \<noteq> None)
       = (foundPageBy (findPageOwnedByNodeId exDevelop exState ''n1'') \<noteq> NoneFound)
   \<and> findPageOwnedByNodeId exDevelop exState ''n1''
       = \<lparr> page_path = Some ''/post-1'', foundPageBy = OwnerNodeId \<rparr>"
proof -
  have h1: "\<forall>kv\<in>set (pages exState).
              ownerNodeId (snd kv) = Some ''n1'' \<or> context_id (snd kv) = Some ''n1''
              \<longrightarrow> path (snd kv) \<noteq> []"
    by (simp add: ex_defs)
  have h2: "trackedPaths exState ''n5'' = None"
    by (simp add: ex_defs trackedPaths_def)
  have h3: "\<forall>c\<in>set cs. \<not> foundOwnerNodeIdAt exState ''n5'' c
                       \<and> \<not> foundPageIdInContextAt exState ''n5'' c"
    if "pagePathSetOrMap exDevelop exState ''n5'' = Some cs" for cs
    using that
    by (auto simp: ex_defs trackedPaths_def pagePathSetOrMap_def foundOwnerNodeIdAt_def
        foundPageIdInContextAt_def)
  have e: "findPageOwnedByNodeId exDevelop exState ''n1''
       = \<lparr> page_path = Some ''/post-1'', foundPageBy = OwnerNodeId \<rparr>"
    by (simp add: ex_defs resolver_defs)
  show ?thesis
    using findPageOwnedByNodeId_none_found [of exState "''n5''" exDevelop, OF h2 h3]
      findPageOwnedByNodeId_path_iff [OF h1, of exDevelop] e
    by simp
qed
section \<open>The diagnostics and the manifest processor\<close>

lemmas world_defs = exWorld_def exPending_def exManifest_def exWin32_def exVerbose_def
  exJoin_def exDirname_def

lemma foundPageByToLogIds_keys:
  "map_of foundPageByToLogIds (FoundPageBy_string f) = Some (specLogId f)"
  by (cases f) (simp_all add: foundPageByToLogIds_def)

lemma warn_total:
  "warnAboutNodeManifestMappingProblems m pp (FoundPageBy_string f) verbose rep =
     Inr (specLogId f,
          if verbose \<and> specLogId f \<noteq> ''success''
          then rep @ [ReporterError (specLogId f) (MappingContext m pp)] else rep)"
  by (cases f) (simp_all add: warnAboutNodeManifestMappingProblems_def foundPageByToLogIds_def)

lemma processNodeManifest_missing:
  assumes "getNode w (node_id (node m)) = None"
  shows "processNodeManifest m ids pm verbose w =
           Inr (None,
                (if verbose then ids else Set_add ''11804'' ids),
                pm,
                (if verbose
                 then w\<lparr> reporter := reporter w @
                          [ReporterError ''11804''
                             (NoNodeContext (pluginName m) (node_id (node m)))] \<rparr>
                 else w))"
  using assms by (simp add: processNodeManifest_def Let_def)

lemma truthy_guard:
  "truthy (if truthy x then x else None) = ((if truthy x then x else None) \<noteq> None)"
  by (cases x) simp_all

lemma page_path_truthy:
  "truthy (page_path (findPageOwnedByNodeId pr state nodeId))
     = (page_path (findPageOwnedByNodeId pr state nodeId) \<noteq> None)"
  unfolding findPageOwnedByNodeId_def Let_def FoundPage.simps
  by (rule truthy_guard)

lemma processNodeManifest_present:
  assumes "getNode w (node_id (node m)) = Some n"
  shows "processNodeManifest m ids pm verbose w =
     (let found = findPageOwnedByNodeId (proc w) (store w) (node_id (node m));
          logId = specLogId (foundPageBy found);
          finalManifest = \<lparr> out_page_path = page_path found, out_node = node m,
                            out_foundPageBy = foundPageBy found \<rparr>
      in Inr (Some finalManifest,
              (if \<not> verbose \<and> logId \<noteq> ''success'' then Set_add logId ids else ids),
              (case page_path found of None \<Rightarrow> pm
               | Some p \<Rightarrow> AList.update p (fileNameBase (proc w) m) pm),
              w\<lparr> dirs := insert (path_dirname w (manifestFilePath w m)) (dirs w),
                 files := (files w)(manifestFilePath w m \<mapsto> finalManifest),
                 reporter :=
                   (if verbose
                    then (if logId \<noteq> ''success''
                          then reporter w @ [ReporterError logId
                                 (MappingContext m (page_path found))]
                          else reporter w)
                         @ [InfoCreated (pluginName m) (fileNameBase (proc w) m)]
                    else reporter w) \<rparr>))"
proof -
  define found where "found = findPageOwnedByNodeId (proc w) (store w) (node_id (node m))"
  have t: "truthy (page_path found) = (page_path found \<noteq> None)"
    unfolding found_def by (rule page_path_truthy)
  have pm: "(if truthy (page_path found)
             then (case page_path found of None \<Rightarrow> pm
                   | Some p \<Rightarrow> AList.update p (fileNameBase (proc w) m) pm)
             else pm)
          = (case page_path found of None \<Rightarrow> pm
             | Some p \<Rightarrow> AList.update p (fileNameBase (proc w) m) pm)"
    using t by (cases "page_path found") simp_all
  show ?thesis
    unfolding processNodeManifest_def Let_def assms option.case found_def [symmetric]
      warn_total sum.case prod.case pm
    by (cases verbose) simp_all
qed

lemma task_effect:
  "\<exists>b' w'. processNodeManifestTask verbose m (b, w) = Inr (b', w')
     \<and> sameEnvironment w w'
     \<and> totalProcessedManifests b' =
         totalProcessedManifests b + (if getNode w (node_id (node m)) = None then 0 else 1)
     \<and> totalFailedManifests b' =
         totalFailedManifests b + (if getNode w (node_id (node m)) = None then 1 else 0)
     \<and> nodeManifestPagePathMap b' =
         (if getNode w (node_id (node m)) = None then nodeManifestPagePathMap b
          else (case page_path (findPageOwnedByNodeId (proc w) (store w) (node_id (node m))) of
                  None \<Rightarrow> nodeManifestPagePathMap b
                | Some p \<Rightarrow> AList.update p (fileNameBase (proc w) m) (nodeManifestPagePathMap b)))"
proof (cases "getNode w (node_id (node m))")
  case None
  show ?thesis
    by (simp add: processNodeManifestTask_def processNodeManifest_missing [OF None] None
        sameEnvironment_def)
next
  case (Some n)
  show ?thesis
    by (simp add: processNodeManifestTask_def processNodeManifest_present [OF Some] Some
        sameEnvironment_def Let_def)
qed

lemma ex_found_n5:
  "findPageOwnedByNodeId p (exState\<lparr> nodeManifests := ms \<rparr>) ''n5''
     = \<lparr> page_path = None, foundPageBy = NoneFound \<rparr>"
  by (cases "NODE_ENV p = Some ''development''") (simp_all add: ex_defs resolver_defs)

lemma ex_found_n1:
  "findPageOwnedByNodeId p (exState\<lparr> nodeManifests := ms \<rparr>) ''n1''
     = \<lparr> page_path = Some ''/post-1'', foundPageBy = OwnerNodeId \<rparr>"
  by (cases "NODE_ENV p = Some ''development''") (simp_all add: ex_defs resolver_defs)

lemma processNodeManifest_total:
  "\<exists>out ids' pm' w'. processNodeManifest m ids pm verbose w = Inr (out, ids', pm', w')"
proof (cases "getNode w (node_id (node m))")
  case None
  then show ?thesis by (simp add: processNodeManifest_missing)
next
  case (Some n)
  then show ?thesis by (simp add: processNodeManifest_present Let_def)
qed

text \<open>
  Claim C5. When \<^verbatim>\<open>getNode\<close> finds no node for the request's node id,
  \<^verbatim>\<open>processNodeManifest\<close> returns null and leaves the file system as it was; the id
  \<^verbatim>\<open>11804\<close> is given to the reporter at once when verbose and is added to the set of
  unique error ids otherwise; and the task of the batch adds one to
  \<^verbatim>\<open>totalFailedManifests\<close> and nothing to \<^verbatim>\<open>totalProcessedManifests\<close>.
\<close>

theorem processNodeManifest_node_missing:
  assumes missing: "getNode w (node_id (node m)) = None"
  shows "processNodeManifest m ids pm verbose w =
           Inr (None,
                (if verbose then ids else Set_add ''11804'' ids),
                pm,
                (if verbose
                 then w\<lparr> reporter := reporter w @
                          [ReporterError ''11804''
                             (NoNodeContext (pluginName m) (node_id (node m)))] \<rparr>
                 else w))
       \<and> (case processNodeManifestTask verbose m (b, w) of
             Inl e \<Rightarrow> False
           | Inr (b', w') \<Rightarrow>
               totalFailedManifests b' = totalFailedManifests b + 1
               \<and> totalProcessedManifests b' = totalProcessedManifests b
               \<and> files w' = files w \<and> dirs w' = dirs w)"
  by (simp add: processNodeManifest_missing [OF missing] processNodeManifestTask_def)

text \<open>Witness for C5: the request for node \<^verbatim>\<open>n9\<close>, which the datastore does not
  have; quiet with and without \<^verbatim>\<open>11804\<close> already in the set, and verbose.\<close>

theorem processNodeManifest_node_missing_witness:
  "processNodeManifest (exManifest ''gone'' ''n9'') [''11803''] [] False (exWorld exBuild)
     = Inr (None, [''11803'', ''11804''], [], exWorld exBuild)
   \<and> processNodeManifest (exManifest ''gone'' ''n9'') [''11804''] [] False (exWorld exBuild)
     = Inr (None, [''11804''], [], exWorld exBuild)
   \<and> (case processNodeManifestTask True (exManifest ''gone'' ''n9'') (emptyBatch, exWorld exVerbose) of
         Inl e \<Rightarrow> False
       | Inr (b', w') \<Rightarrow>
           totalFailedManifests b' = 1 \<and> totalProcessedManifests b' = 0
           \<and> reporter w' = [ReporterError ''11804'' (NoNodeContext ''gatsby-source-x'' ''n9'')])"
proof -
  have h: "getNode (exWorld p) (node_id (node (exManifest ''gone'' ''n9''))) = None" for p
    by (simp add: getNode_def world_defs)
  have a: "processNodeManifest (exManifest ''gone'' ''n9'') [''11803''] [] False (exWorld exBuild)
     = Inr (None, [''11803'', ''11804''], [], exWorld exBuild)"
    using processNodeManifest_node_missing [OF h, of "[''11803'']" "[]" False exBuild emptyBatch] by (simp add: Set_add_def)
  have b: "processNodeManifest (exManifest ''gone'' ''n9'') [''11804''] [] False (exWorld exBuild)
     = Inr (None, [''11804''], [], exWorld exBuild)"
    using processNodeManifest_node_missing [OF h, of "[''11804'']" "[]" False exBuild emptyBatch] by (simp add: Set_add_def)
  have c: "(case processNodeManifestTask True (exManifest ''gone'' ''n9'') (emptyBatch, exWorld exVerbose) of
         Inl e \<Rightarrow> False
       | Inr (b', w') \<Rightarrow>
           totalFailedManifests b' = 1 \<and> totalProcessedManifests b' = 0
           \<and> reporter w' = [ReporterError ''11804'' (NoNodeContext ''gatsby-source-x'' ''n9'')])"
    using processNodeManifest_node_missing [OF h, of "[]" "[]" True exVerbose emptyBatch]
    by (simp add: processNodeManifestTask_def emptyBatch_def world_defs)
  show ?thesis using a b c by blast
qed

text \<open>
  Claim C6. For each of the five kinds, the table \<^verbatim>\<open>foundPageByToLogIds\<close> has the id
  the specification gives, and \<^verbatim>\<open>warnAboutNodeManifestMappingProblems\<close> returns it
  without reaching the \<^verbatim>\<open>throw\<close> of the \<^verbatim>\<open>default\<close> case; an id other than
  \<^verbatim>\<open>success\<close> is given to the reporter exactly when verbose, and otherwise the caller,
  \<^verbatim>\<open>processNodeManifest\<close>, adds it to the set of unique error ids.
\<close>

theorem warnAboutNodeManifestMappingProblems_table:
  "map_of foundPageByToLogIds (FoundPageBy_string f) = Some (specLogId f)
   \<and> warnAboutNodeManifestMappingProblems m pp (FoundPageBy_string f) verbose rep =
       Inr (specLogId f,
            if verbose \<and> specLogId f \<noteq> ''success''
            then rep @ [ReporterError (specLogId f) (MappingContext m pp)] else rep)
   \<and> (getNode w (node_id (node m)) \<noteq> None \<longrightarrow>
        (case processNodeManifest m ids pm verbose w of
           Inl e \<Rightarrow> False
         | Inr (out, ids', pm', w') \<Rightarrow>
             ids' = (let logId = specLogId (foundPageBy
                           (findPageOwnedByNodeId (proc w) (store w) (node_id (node m))))
                     in if \<not> verbose \<and> logId \<noteq> ''success'' then Set_add logId ids else ids)))"
proof (intro conjI impI)
  show "map_of foundPageByToLogIds (FoundPageBy_string f) = Some (specLogId f)"
    by (rule foundPageByToLogIds_keys)
  show "warnAboutNodeManifestMappingProblems m pp (FoundPageBy_string f) verbose rep =
       Inr (specLogId f,
            if verbose \<and> specLogId f \<noteq> ''success''
            then rep @ [ReporterError (specLogId f) (MappingContext m pp)] else rep)"
    by (rule warn_total)
next
  assume "getNode w (node_id (node m)) \<noteq> None"
  then obtain n where n: "getNode w (node_id (node m)) = Some n" by blast
  show "case processNodeManifest m ids pm verbose w of
           Inl e \<Rightarrow> False
         | Inr (out, ids', pm', w') \<Rightarrow>
             ids' = (let logId = specLogId (foundPageBy
                           (findPageOwnedByNodeId (proc w) (store w) (node_id (node m))))
                     in if \<not> verbose \<and> logId \<noteq> ''success'' then Set_add logId ids else ids)"
    by (simp add: processNodeManifest_present [OF n] Let_def)
qed

text \<open>Witness for C6: quiet processing of a request whose node maps to no page
  (\<^verbatim>\<open>11801\<close> joins the set) and of one whose node owns a page (nothing joins it).\<close>

theorem warnAboutNodeManifestMappingProblems_table_witness:
  "(case processNodeManifest (exManifest ''m5'' ''n5'') [] [] False (exWorld exBuild) of
      Inl e \<Rightarrow> False | Inr (out, ids', pm', w') \<Rightarrow> ids' = [''11801''])
   \<and> (case processNodeManifest (exManifest ''a:b/c'' ''n1'') [] [] False (exWorld exBuild) of
      Inl e \<Rightarrow> False | Inr (out, ids', pm', w') \<Rightarrow> ids' = [])"
proof -
  let ?m5 = "exManifest ''m5'' ''n5''" and ?m1 = "exManifest ''a:b/c'' ''n1''"
  have h5: "getNode (exWorld exBuild) (node_id (node ?m5)) \<noteq> None"
    and h1: "getNode (exWorld exBuild) (node_id (node ?m1)) \<noteq> None"
    by (simp_all add: getNode_def world_defs)
  have f5: "specLogId (foundPageBy (findPageOwnedByNodeId (proc (exWorld exBuild))
              (store (exWorld exBuild)) (node_id (node ?m5)))) = ''11801''"
    by (simp add: exWorld_def exManifest_def ex_found_n5)
  have f1: "specLogId (foundPageBy (findPageOwnedByNodeId (proc (exWorld exBuild))
              (store (exWorld exBuild)) (node_id (node ?m1)))) = ''success''"
    by (simp add: exWorld_def exManifest_def ex_found_n1)
  note t5 = warnAboutNodeManifestMappingProblems_table [of NoneFound ?m5 None False "[]" "exWorld exBuild" "[]" "[]",
      THEN conjunct2, THEN conjunct2, THEN mp, OF h5]
  note t1 = warnAboutNodeManifestMappingProblems_table [of NoneFound ?m1 None False "[]" "exWorld exBuild" "[]" "[]",
      THEN conjunct2, THEN conjunct2, THEN mp, OF h1]
  obtain out5 ids5 pm5 w5 where e5:
    "processNodeManifest ?m5 [] [] False (exWorld exBuild) = Inr (out5, ids5, pm5, w5)"
    using processNodeManifest_total by blast
  obtain out1 ids1 pm1 w1 where e1:
    "processNodeManifest ?m1 [] [] False (exWorld exBuild) = Inr (out1, ids1, pm1, w1)"
    using processNodeManifest_total by blast
  have a: "case processNodeManifest ?m5 [] [] False (exWorld exBuild) of
      Inl e \<Rightarrow> False | Inr (out, ids', pm', w') \<Rightarrow> ids' = [''11801'']"
    using t5 unfolding e5 f5 Let_def by (simp add: Set_add_def)
  have b: "case processNodeManifest ?m1 [] [] False (exWorld exBuild) of
      Inl e \<Rightarrow> False | Inr (out, ids', pm', w') \<Rightarrow> ids' = []"
    using t1 unfolding e1 f1 Let_def by simp
  show ?thesis using a b by blast
qed

text \<open>
  Claim C7. On \<^verbatim>\<open>win32\<close> the file name base is the manifest id with every colon,
  slash, asterisk, question mark, double quote, angle bracket, pipe and backslash replaced
  by a hyphen, and on any other platform it is the manifest id itself. When the node
  exists, the manifest is afterwards the content of the file at
  \<^verbatim>\<open>path.join(directory, "public", "__node-manifests", pluginName, base + ".json")\<close>,
  whatever was at that path before, its directory exists, and no other file has changed.
\<close>

theorem processNodeManifest_artifact_path:
  "(platform (proc w) = ''win32'' \<longrightarrow>
      fileNameBase (proc w) m =
        map (\<lambda>c. if c \<in> {CHR '':'', CHR ''/'', CHR ''*'', CHR ''?'', CHR 0x22,
                          CHR ''<'', CHR ''>'', CHR ''|'', CHR 0x5C}
                  then CHR ''-'' else c) (manifestId m))
   \<and> (platform (proc w) \<noteq> ''win32'' \<longrightarrow> fileNameBase (proc w) m = manifestId m)
   \<and> (getNode w (node_id (node m)) \<noteq> None \<longrightarrow>
        (case processNodeManifest m ids pm verbose w of
           Inl e \<Rightarrow> False
         | Inr (out, ids', pm', w') \<Rightarrow>
             out \<noteq> None
             \<and> files w' (path_join w [program_directory (store w), ''public'',
                           ''__node-manifests'', pluginName m,
                           fileNameBase (proc w) m @ ''.json'']) = out
             \<and> path_dirname w (path_join w [program_directory (store w), ''public'',
                           ''__node-manifests'', pluginName m,
                           fileNameBase (proc w) m @ ''.json'']) \<in> dirs w'
             \<and> (\<forall>q. q \<noteq> path_join w [program_directory (store w), ''public'',
                           ''__node-manifests'', pluginName m,
                           fileNameBase (proc w) m @ ''.json''] \<longrightarrow> files w' q = files w q)))"
proof (intro conjI impI)
  assume "platform (proc w) = ''win32''"
  then show "fileNameBase (proc w) m =
        map (\<lambda>c. if c \<in> {CHR '':'', CHR ''/'', CHR ''*'', CHR ''?'', CHR 0x22,
                          CHR ''<'', CHR ''>'', CHR ''|'', CHR 0x5C}
                  then CHR ''-'' else c) (manifestId m)"
    by (simp add: fileNameBase_def reservedChars_def)
next
  assume "platform (proc w) \<noteq> ''win32''"
  then show "fileNameBase (proc w) m = manifestId m"
    by (simp add: fileNameBase_def)
next
  assume "getNode w (node_id (node m)) \<noteq> None"
  then obtain n where n: "getNode w (node_id (node m)) = Some n" by blast
  show "case processNodeManifest m ids pm verbose w of
           Inl e \<Rightarrow> False
         | Inr (out, ids', pm', w') \<Rightarrow>
             out \<noteq> None
             \<and> files w' (path_join w [program_directory (store w), ''public'',
                           ''__node-manifests'', pluginName m,
                           fileNameBase (proc w) m @ ''.json'']) = out
             \<and> path_dirname w (path_join w [program_directory (store w), ''public'',
                           ''__node-manifests'', pluginName m,
                           fileNameBase (proc w) m @ ''.json'']) \<in> dirs w'
             \<and> (\<forall>q. q \<noteq> path_join w [program_directory (store w), ''public'',
                           ''__node-manifests'', pluginName m,
                           fileNameBase (proc w) m @ ''.json''] \<longrightarrow> files w' q = files w q)"
    by (simp add: processNodeManifest_present [OF n] Let_def manifestFilePath_def)
qed

text \<open>Witness for C7: the manifest id \<^verbatim>\<open>a:b/c\<close> on Windows and on Linux, and the
  file written for it on Windows.\<close>

theorem processNodeManifest_artifact_path_witness:
  "fileNameBase exWin32 (exManifest ''a:b/c'' ''n1'') = ''a-b-c''
   \<and> fileNameBase exBuild (exManifest ''a:b/c'' ''n1'') = ''a:b/c''
   \<and> (case processNodeManifest (exManifest ''a:b/c'' ''n1'') [] [] False (exWorld exWin32) of
         Inl e \<Rightarrow> False
       | Inr (out, ids', pm', w') \<Rightarrow>
           out = Some \<lparr> out_page_path = Some ''/post-1'', out_node = \<lparr> node_id = ''n1'' \<rparr>,
                        out_foundPageBy = OwnerNodeId \<rparr>
           \<and> files w' ''/site/public/__node-manifests/gatsby-source-x/a-b-c.json'' = out
           \<and> ''/site/public/__node-manifests/gatsby-source-x'' \<in> dirs w')"
proof -
  let ?m = "exManifest ''a:b/c'' ''n1''"
  let ?out = "Some \<lparr> out_page_path = Some ''/post-1'', out_node = \<lparr> node_id = ''n1'' \<rparr>,
                        out_foundPageBy = OwnerNodeId \<rparr>"
  have p1: "platform (proc (exWorld exWin32)) = ''win32''"
    and p2: "platform (proc (exWorld exBuild)) \<noteq> ''win32''"
    and p3: "proc (exWorld exWin32) = exWin32" and p4: "proc (exWorld exBuild) = exBuild"
    by (simp_all add: world_defs ex_defs)
  have h: "getNode (exWorld exWin32) (node_id (node ?m)) \<noteq> None"
    by (simp add: getNode_def world_defs)
  have a: "fileNameBase exWin32 ?m = ''a-b-c''"
    using processNodeManifest_artifact_path [of "exWorld exWin32" ?m "[]" "[]" False] p1
    by (simp add: p3 exManifest_def)
  have b: "fileNameBase exBuild ?m = ''a:b/c''"
    using processNodeManifest_artifact_path [of "exWorld exBuild" ?m "[]" "[]" False] p2
    by (simp add: p4 exManifest_def)
  have j: "path_join (exWorld exWin32) [program_directory (store (exWorld exWin32)), ''public'',
                           ''__node-manifests'', pluginName ?m,
                           fileNameBase (proc (exWorld exWin32)) ?m @ ''.json'']
           = ''/site/public/__node-manifests/gatsby-source-x/a-b-c.json''"
    unfolding p3 a by (simp add: world_defs ex_defs)
  have d: "path_dirname (exWorld exWin32) ''/site/public/__node-manifests/gatsby-source-x/a-b-c.json''
           = ''/site/public/__node-manifests/gatsby-source-x''"
    by (simp add: world_defs)
  obtain n where n: "getNode (exWorld exWin32) (node_id (node ?m)) = Some n"
    using h by blast
  have f: "findPageOwnedByNodeId (proc (exWorld exWin32)) (store (exWorld exWin32)) ''n1''
            = \<lparr> page_path = Some ''/post-1'', foundPageBy = OwnerNodeId \<rparr>"
    by (simp add: exWorld_def ex_found_n1)
  have nd: "node ?m = \<lparr> node_id = ''n1'' \<rparr>"
    by (simp add: exManifest_def)
  have "\<exists>ids' pm' w'. processNodeManifest ?m [] [] False (exWorld exWin32)
           = Inr (?out, ids', pm', w')"
    by (simp add: processNodeManifest_present [OF n] Let_def f nd)
  then obtain ids' pm' w' where e: "processNodeManifest ?m [] [] False (exWorld exWin32)
           = Inr (?out, ids', pm', w')"
    by blast
  note t = processNodeManifest_artifact_path [of "exWorld exWin32" ?m "[]" "[]" False,
      THEN conjunct2, THEN conjunct2, THEN mp, OF h]
  have c: "case processNodeManifest ?m [] [] False (exWorld exWin32) of
         Inl e \<Rightarrow> False
       | Inr (out, ids', pm', w') \<Rightarrow>
           out = ?out
           \<and> files w' ''/site/public/__node-manifests/gatsby-source-x/a-b-c.json'' = out
           \<and> ''/site/public/__node-manifests/gatsby-source-x'' \<in> dirs w'"
    using t unfolding e j d by simp
  show ?thesis using a b c by blast
qed

section \<open>The tasks of a batch\<close>

text \<open>What one step of a task does, stage by stage, in a batch started in the world
  \<open>w\<close>.\<close>

lemma sameEnvironment_refl [simp]: "sameEnvironment w w"
  by (simp add: sameEnvironment_def)

lemma sameEnvironment_getNode: "sameEnvironment w w' \<Longrightarrow> getNode w' = getNode w"
  by (simp add: sameEnvironment_def getNode_def fun_eq_iff)

lemma sameEnvironment_manifestFilePath:
  "sameEnvironment w w' \<Longrightarrow> manifestFilePath w' m = manifestFilePath w m"
  by (simp add: sameEnvironment_def manifestFilePath_def)

lemma sameEnvironment_reporter [simp]:
  "sameEnvironment w (w'\<lparr> reporter := r \<rparr>) = sameEnvironment w w'"
  "sameEnvironment w (w'\<lparr> dirs := d \<rparr>) = sameEnvironment w w'"
  "sameEnvironment w (w'\<lparr> files := f \<rparr>) = sameEnvironment w w'"
  by (simp_all add: sameEnvironment_def)

lemma startTask_present:
  assumes "sameEnvironment w wc" and "presentIn w m"
  shows "startTask v m (b, wc) = (AwaitFindPage (foundFor w m), b, wc)"
proof -
  have "getNode wc (node_id (node m)) \<noteq> None"
    using assms by (simp add: presentIn_def sameEnvironment_getNode [OF assms(1)])
  then obtain n where n: "getNode wc (node_id (node m)) = Some n" by blast
  have e: "proc wc = proc w" "store wc = store w"
    using assms by (simp_all add: sameEnvironment_def)
  show ?thesis
    by (simp only: startTask_def Let_def fst_conv snd_conv n option.case e foundFor_def)
qed

lemma startTask_missing:
  assumes "sameEnvironment w wc" and "\<not> presentIn w m"
  shows "startTask v m (b, wc) =
           (AwaitProcessed None,
            (if v then b else b\<lparr> listOfUniqueErrorIds := Set_add ''11804'' (listOfUniqueErrorIds b) \<rparr>),
            (if v then wc\<lparr> reporter := reporter wc @
                        [ReporterError ''11804''
                           (NoNodeContext (pluginName m) (node_id (node m)))] \<rparr>
             else wc))"
proof -
  have n: "getNode wc (node_id (node m)) = None"
    using assms by (simp add: presentIn_def sameEnvironment_getNode [OF assms(1)])
  show ?thesis
    by (cases v) (simp_all only: startTask_def Let_def fst_conv snd_conv n option.case if_True if_False)
qed

lemma resumeFindPage_eq:
  assumes "sameEnvironment w wc"
  shows "resumeFindPage v m (foundFor w m) (b, wc) =
           Inr (AwaitEnsureDir (frameOf w m),
                b\<lparr> listOfUniqueErrorIds :=
                     (if \<not> v \<and> specLogId (foundPageBy (foundFor w m)) \<noteq> ''success''
                      then Set_add (specLogId (foundPageBy (foundFor w m))) (listOfUniqueErrorIds b)
                      else listOfUniqueErrorIds b) \<rparr>,
                wc\<lparr> reporter := reporter wc @ warnedBy v w m \<rparr>)"
proof -
  have e: "proc wc = proc w" "path_dirname wc = path_dirname w"
      "manifestFilePath wc m = manifestFilePath w m"
    using assms sameEnvironment_manifestFilePath [OF assms, of m]
    by (simp_all add: sameEnvironment_def)
  have r: "(if v \<and> specLogId (foundPageBy (foundFor w m)) \<noteq> ''success''
            then reporter wc @ [ReporterError (specLogId (foundPageBy (foundFor w m)))
                                  (MappingContext m (page_path (foundFor w m)))]
            else reporter wc) = reporter wc @ warnedBy v w m"
    by (simp add: warnedBy_def)
  show ?thesis
    by (simp only: resumeFindPage_def Let_def fst_conv snd_conv warn_total sum.case prod.case
        e r frameOf_def artifactOf_def)
qed

lemma truthy_case:
  "truthy x = (x \<noteq> None) \<Longrightarrow>
   (if truthy x then (case x of None \<Rightarrow> a | Some p \<Rightarrow> f p) else a)
     = (case x of None \<Rightarrow> a | Some p \<Rightarrow> f p)"
  by (cases x) auto

lemma resumeWriteJSON_eq:
  "resumeWriteJSON v m (frameOf w m) (b, wc) =
     (AwaitProcessed (Some (artifactOf w m)),
      b\<lparr> nodeManifestPagePathMap :=
           (case page_path (foundFor w m) of None \<Rightarrow> nodeManifestPagePathMap b
            | Some p \<Rightarrow> AList.update p (fileNameBase (proc w) m) (nodeManifestPagePathMap b)) \<rparr>,
      wc\<lparr> files := (files wc)(manifestFilePath w m \<mapsto> artifactOf w m),
          reporter := (if v then reporter wc @ [InfoCreated (pluginName m) (fileNameBase (proc w) m)]
                       else reporter wc) \<rparr>)"
proof -
  have t: "truthy (page_path (foundFor w m)) = (page_path (foundFor w m) \<noteq> None)"
    unfolding foundFor_def by (rule page_path_truthy)
  show ?thesis
    apply (simp only: resumeWriteJSON_def Let_def fst_conv snd_conv)
    apply (simp only: frameOf_def artifactOf_def Frame.simps INodeManifestOut.simps)
    apply (simp only: truthy_case [OF t])
    done
qed


lemma fire_Queued:
  assumes "sameEnvironment w wc"
  shows "fire v m Queued (b, wc) =
           (if presentIn w m
            then Inr (InFlight (AwaitFindPage (foundFor w m)), b, wc)
            else Inr (InFlight (AwaitProcessed None),
                      (if v then b
                       else b\<lparr> listOfUniqueErrorIds := Set_add ''11804'' (listOfUniqueErrorIds b) \<rparr>),
                      (if v then wc\<lparr> reporter := reporter wc @
                                  [ReporterError ''11804''
                                     (NoNodeContext (pluginName m) (node_id (node m)))] \<rparr>
                       else wc)))"
proof (cases "presentIn w m")
  case True
  show ?thesis
    by (simp only: fire.simps startTask_present [OF assms True] prod.case True if_True)
next
  case False
  show ?thesis
    by (simp only: fire.simps startTask_missing [OF assms False] prod.case False if_False)
qed

lemma fire_FindPage:
  assumes "sameEnvironment w wc"
  shows "fire v m (InFlight (AwaitFindPage (foundFor w m))) (b, wc) =
           Inr (InFlight (AwaitEnsureDir (frameOf w m)),
                b\<lparr> listOfUniqueErrorIds :=
                     (if \<not> v \<and> specLogId (foundPageBy (foundFor w m)) \<noteq> ''success''
                      then Set_add (specLogId (foundPageBy (foundFor w m))) (listOfUniqueErrorIds b)
                      else listOfUniqueErrorIds b) \<rparr>,
                wc\<lparr> reporter := reporter wc @ warnedBy v w m \<rparr>)"
  by (simp only: fire.simps resume.simps resumeFindPage_eq [OF assms] sum.case prod.case)

lemma fire_EnsureDir:
  "fire v m (InFlight (AwaitEnsureDir (frameOf w m))) (b, wc) =
           Inr (InFlight (AwaitWriteJSON (frameOf w m)), b,
                wc\<lparr> dirs := insert (path_dirname w (manifestFilePath w m)) (dirs wc) \<rparr>)"
  by (simp add: resumeEnsureDir_def frameOf_def)

lemma fire_WriteJSON:
  "fire v m (InFlight (AwaitWriteJSON (frameOf w m))) (b, wc) =
     Inr (InFlight (AwaitProcessed (Some (artifactOf w m))),
      b\<lparr> nodeManifestPagePathMap :=
           (case page_path (foundFor w m) of None \<Rightarrow> nodeManifestPagePathMap b
            | Some p \<Rightarrow> AList.update p (fileNameBase (proc w) m) (nodeManifestPagePathMap b)) \<rparr>,
      wc\<lparr> files := (files wc)(manifestFilePath w m \<mapsto> artifactOf w m),
          reporter := (if v then reporter wc @ [InfoCreated (pluginName m) (fileNameBase (proc w) m)]
                       else reporter wc) \<rparr>)"
  by (simp only: fire.simps resume.simps resumeWriteJSON_eq prod.case)

lemma fire_Processed:
  "fire v m (InFlight (AwaitProcessed r)) (b, wc) =
     Inr (InFlight AwaitImmediate,
          (if r \<noteq> None
           then b\<lparr> totalProcessedManifests := totalProcessedManifests b + 1 \<rparr>
           else b\<lparr> totalFailedManifests := totalFailedManifests b + 1 \<rparr>), wc)"
  by (simp add: resumeProcessed_def)

lemma fire_Immediate: "fire v m (InFlight AwaitImmediate) bw = Inr (Finished, bw)"
  by simp

lemma upd_present:
  "presentIn w m \<Longrightarrow>
   upd w m pm = (case page_path (foundFor w m) of None \<Rightarrow> pm
                 | Some p \<Rightarrow> AList.update p (fileNameBase (proc w) m) pm)"
  by (auto simp: upd_def pagePathEntry_def presentIn_def foundFor_def split: option.splits)

declare fire.simps [simp del]

lemmas done_defs = doneProcessed_def doneFailed_def doneReported_def doneDirs_def doneWritten_def

lemma fire_effect:
  assumes env: "sameEnvironment w wc" and ok: "taskOK w m t" and nf: "t \<noteq> Finished"
  obtains t' b' wc' where
    "fire v m t (b, wc) = Inr (t', b', wc')"
    "sameEnvironment w wc'" "taskOK w m t'" "rank t < rank t'" "t' \<noteq> Queued"
    "(t' = Finished) = (rank t = 5)"
    "totalProcessedManifests b' + doneProcessed w (m, t)
       = totalProcessedManifests b + doneProcessed w (m, t')"
    "totalFailedManifests b' + doneFailed w (m, t)
       = totalFailedManifests b + doneFailed w (m, t')"
    "mset (reporter wc') + doneReported v w (m, t)
       = mset (reporter wc) + doneReported v w (m, t')"
    "dirs wc' = (if rank t = 2 then insert (path_dirname w (manifestFilePath w m)) (dirs wc)
                 else dirs wc)"
    "doneDirs w (m, t') = (if rank t = 2
                           then insert (path_dirname w (manifestFilePath w m)) (doneDirs w (m, t))
                           else doneDirs w (m, t))"
    "files wc' = (if rank t = 3 then (files wc)(manifestFilePath w m \<mapsto> artifactOf w m)
                  else files wc)"
    "doneWritten w (m, t') = doneWritten w (m, t) + (if rank t = 3 then {#m#} else {#})"
    "nodeManifestPagePathMap b' = (if rank t = 3 then upd w m (nodeManifestPagePathMap b)
                                   else nodeManifestPagePathMap b)"
proof (cases t rule: rank.cases)
  case 1
  show ?thesis
  proof (cases "presentIn w m")
    case True
    show ?thesis
      by (rule that [of "InFlight (AwaitFindPage (foundFor w m))" b wc])
         (simp_all add: 1 fire_Queued [OF env] True env done_defs)
  next
    case False
    show ?thesis
      by (rule that [of "InFlight (AwaitProcessed None)"
            "if v then b else b\<lparr> listOfUniqueErrorIds := Set_add ''11804'' (listOfUniqueErrorIds b) \<rparr>"
            "if v then wc\<lparr> reporter := reporter wc @
                                  [ReporterError ''11804''
                                     (NoNodeContext (pluginName m) (node_id (node m)))] \<rparr>
                       else wc"])
         (simp_all add: 1 fire_Queued [OF env] False env done_defs)
  qed
next
  case (2 f)
  then have p: "presentIn w m" and f: "f = foundFor w m" using ok by simp_all
  show ?thesis
    by (rule that [of "InFlight (AwaitEnsureDir (frameOf w m))"
          "b\<lparr> listOfUniqueErrorIds :=
                     (if \<not> v \<and> specLogId (foundPageBy (foundFor w m)) \<noteq> ''success''
                      then Set_add (specLogId (foundPageBy (foundFor w m))) (listOfUniqueErrorIds b)
                      else listOfUniqueErrorIds b) \<rparr>"
          "wc\<lparr> reporter := reporter wc @ warnedBy v w m \<rparr>"])
       (simp_all add: 2 f fire_FindPage [OF env] p env done_defs warnedBy_def)
next
  case (3 fr)
  then have p: "presentIn w m" and f: "fr = frameOf w m" using ok by simp_all
  show ?thesis
    by (rule that [of "InFlight (AwaitWriteJSON (frameOf w m))" b
          "wc\<lparr> dirs := insert (path_dirname w (manifestFilePath w m)) (dirs wc) \<rparr>"])
       (simp_all add: 3 f fire_EnsureDir p env done_defs)
next
  case (4 fr)
  then have p: "presentIn w m" and f: "fr = frameOf w m" using ok by simp_all
  show ?thesis
    by (rule that [of "InFlight (AwaitProcessed (Some (artifactOf w m)))"
          "b\<lparr> nodeManifestPagePathMap :=
           (case page_path (foundFor w m) of None \<Rightarrow> nodeManifestPagePathMap b
            | Some p \<Rightarrow> AList.update p (fileNameBase (proc w) m) (nodeManifestPagePathMap b)) \<rparr>"
          "wc\<lparr> files := (files wc)(manifestFilePath w m \<mapsto> artifactOf w m),
              reporter := (if v then reporter wc @ [InfoCreated (pluginName m) (fileNameBase (proc w) m)]
                       else reporter wc) \<rparr>"])
       (simp_all add: 4 f fire_WriteJSON p env done_defs upd_present)
next
  case (5 r)
  then have r: "r = (if presentIn w m then Some (artifactOf w m) else None)" using ok by simp
  show ?thesis
    by (rule that [of "InFlight AwaitImmediate"
          "if r \<noteq> None
           then b\<lparr> totalProcessedManifests := totalProcessedManifests b + 1 \<rparr>
           else b\<lparr> totalFailedManifests := totalFailedManifests b + 1 \<rparr>" wc])
       (simp_all add: 5 r fire_Processed env done_defs)
next
  case 6
  show ?thesis
    by (rule that [of Finished b wc]) (simp_all add: 6 fire_Immediate env done_defs)
next
  case 7
  then show ?thesis using nf by simp
qed

text \<open>Sums and unions over the queue when the state of one task changes.\<close>

lemma sum_list_map_update:
  fixes f :: "'a \<Rightarrow> 'b::comm_monoid_add"
  shows "k < length xs \<Longrightarrow>
         sum_list (map f (xs[k := y])) + f (xs ! k) = sum_list (map f xs) + f y"
proof (induction xs arbitrary: k)
  case Nil
  then show ?case by simp
next
  case (Cons x xs)
  show ?case
  proof (cases k)
    case 0
    then show ?thesis by (simp add: ac_simps)
  next
    case (Suc j)
    then have "j < length xs" using Cons.prems by simp
    from Cons.IH [OF this] show ?thesis
      by (simp add: Suc add.assoc)
  qed
qed

lemma sum_list_map_update_delta:
  fixes f :: "'a \<Rightarrow> 'b::cancel_comm_monoid_add"
  assumes "k < length xs" and "c' + f (xs ! k) = c + f y" and "c = c0 + sum_list (map f xs)"
  shows "c' = c0 + sum_list (map f (xs[k := y]))"
proof -
  have "c' + f (xs ! k) = c0 + (sum_list (map f xs) + f y)"
    using assms(2,3) by (simp add: add.assoc)
  also have "\<dots> = c0 + (sum_list (map f (xs[k := y])) + f (xs ! k))"
    using sum_list_map_update [OF assms(1), of f y] by simp
  finally have "c' + f (xs ! k) = (c0 + sum_list (map f (xs[k := y]))) + f (xs ! k)"
    by (simp add: add.assoc)
  then show ?thesis by simp
qed

lemma UN_list_update:
  assumes "k < length xs" and "g (xs ! k) \<subseteq> g y"
  shows "(\<Union>x\<in>set (xs[k := y]). g x) = (\<Union>x\<in>set xs. g x) \<union> g y"
proof
  show "(\<Union>x\<in>set (xs[k := y]). g x) \<subseteq> (\<Union>x\<in>set xs. g x) \<union> g y"
    using set_update_subset_insert [of xs k y] by auto
  have "set xs \<subseteq> insert (xs ! k) (set (xs[k := y]))"
  proof
    fix x assume "x \<in> set xs"
    then obtain i where i: "i < length xs" "xs ! i = x" by (auto simp: in_set_conv_nth)
    show "x \<in> insert (xs ! k) (set (xs[k := y]))"
    proof (cases "i = k")
      case True
      then show ?thesis using i by simp
    next
      case False
      then have "xs[k := y] ! i = x" using i by simp
      then have "x \<in> set (xs[k := y])" using i(1)
        by (metis length_list_update nth_mem)
      then show ?thesis by simp
    qed
  qed
  moreover have "y \<in> set (xs[k := y])"
    using assms(1) by (simp add: set_update_memI)
  ultimately show "(\<Union>x\<in>set xs. g x) \<union> g y \<subseteq> (\<Union>x\<in>set (xs[k := y]). g x)"
    using assms(2) by auto
qed

lemma list_all_update:
  "list_all P xs \<Longrightarrow> P y \<Longrightarrow> list_all P (xs[k := y])"
  using set_update_subset_insert [of xs k y] by (auto simp: list_all_iff)

lemma files_inv_step:
  assumes "\<forall>q. if q \<in> f ` set_mset W
               then \<exists>m'\<in>#W. f m' = q \<and> F q = Some (a m') else F q = F0 q"
  shows "\<forall>q. if q \<in> f ` set_mset (W + {#m#})
              then \<exists>m'\<in>#W + {#m#}. f m' = q \<and> (F(f m \<mapsto> a m)) q = Some (a m')
              else (F(f m \<mapsto> a m)) q = F0 q"
proof
  fix q
  show "if q \<in> f ` set_mset (W + {#m#})
        then \<exists>m'\<in>#W + {#m#}. f m' = q \<and> (F(f m \<mapsto> a m)) q = Some (a m')
        else (F(f m \<mapsto> a m)) q = F0 q"
  proof (cases "q = f m")
    case True
    then show ?thesis by auto
  next
    case False
    from assms have "if q \<in> f ` set_mset W
               then \<exists>m'\<in>#W. f m' = q \<and> F q = Some (a m') else F q = F0 q" ..
    then show ?thesis using False by auto
  qed
qed

text \<open>A step of a task keeps the invariant of the batch.\<close>

lemma fireAt_inv:
  assumes inv: "batchInv v w (tasks, b, wc)" and k: "k < length tasks"
    and nf: "snd (tasks ! k) \<noteq> Finished"
  obtains t' b' wc' where
    "fireAt v k (tasks, b, wc) = Inr (tasks[k := (fst (tasks ! k), t')], b', wc')"
    "batchInv v w (tasks[k := (fst (tasks ! k), t')], b', wc')"
    "rank (snd (tasks ! k)) < rank t'" "t' \<noteq> Queued"
    "(t' = Finished) = (rank (snd (tasks ! k)) = 5)"
    "sum_list (map (doneWritten w) (tasks[k := (fst (tasks ! k), t')]))
       = sum_list (map (doneWritten w) tasks)
         + (if rank (snd (tasks ! k)) = 3 then {#fst (tasks ! k)#} else {#})"
    "nodeManifestPagePathMap b'
       = (if rank (snd (tasks ! k)) = 3
          then upd w (fst (tasks ! k)) (nodeManifestPagePathMap b)
          else nodeManifestPagePathMap b)"
proof -
  define m where "m = fst (tasks ! k)"
  define t where "t = snd (tasks ! k)"
  have mt: "tasks ! k = (m, t)" by (simp add: m_def t_def)
  have unf: "sameEnvironment w wc
         \<and> list_all (\<lambda>mt. taskOK w (fst mt) (snd mt)) tasks
         \<and> totalProcessedManifests b = sum_list (map (doneProcessed w) tasks)
         \<and> totalFailedManifests b = sum_list (map (doneFailed w) tasks)
         \<and> mset (reporter wc) = mset (reporter w) + sum_list (map (doneReported v w) tasks)
         \<and> dirs wc = dirs w \<union> (\<Union>mt\<in>set tasks. doneDirs w mt)
         \<and> (\<forall>q. if q \<in> manifestFilePath w ` set_mset (sum_list (map (doneWritten w) tasks))
                 then \<exists>m\<in>#sum_list (map (doneWritten w) tasks).
                        manifestFilePath w m = q \<and> files wc q = Some (artifactOf w m)
                 else files wc q = files w q)"
    using inv unfolding batchInv_def Let_def fst_conv snd_conv .
  note env = unf [THEN conjunct1]
    and all = unf [THEN conjunct2, THEN conjunct1]
    and iP = unf [THEN conjunct2, THEN conjunct2, THEN conjunct1]
    and iF = unf [THEN conjunct2, THEN conjunct2, THEN conjunct2, THEN conjunct1]
    and iR = unf [THEN conjunct2, THEN conjunct2, THEN conjunct2, THEN conjunct2, THEN conjunct1]
    and iD = unf [THEN conjunct2, THEN conjunct2, THEN conjunct2, THEN conjunct2, THEN conjunct2,
                  THEN conjunct1]
    and iW = unf [THEN conjunct2, THEN conjunct2, THEN conjunct2, THEN conjunct2, THEN conjunct2,
                  THEN conjunct2]
  have ok: "taskOK w m t"
    using all k mt by (auto simp: list_all_length)
  have nf': "t \<noteq> Finished" using nf by (simp add: t_def)
  obtain t' b' wc' where
    f: "fire v m t (b, wc) = Inr (t', b', wc')"
    and env': "sameEnvironment w wc'" and ok': "taskOK w m t'"
    and rk: "rank t < rank t'" and nq: "t' \<noteq> Queued"
    and fin: "(t' = Finished) = (rank t = 5)"
    and eP: "totalProcessedManifests b' + doneProcessed w (m, t)
       = totalProcessedManifests b + doneProcessed w (m, t')"
    and eF: "totalFailedManifests b' + doneFailed w (m, t)
       = totalFailedManifests b + doneFailed w (m, t')"
    and eR: "mset (reporter wc') + doneReported v w (m, t)
       = mset (reporter wc) + doneReported v w (m, t')"
    and eD: "dirs wc' = (if rank t = 2 then insert (path_dirname w (manifestFilePath w m)) (dirs wc)
                 else dirs wc)"
    and eDD: "doneDirs w (m, t') = (if rank t = 2
                           then insert (path_dirname w (manifestFilePath w m)) (doneDirs w (m, t))
                           else doneDirs w (m, t))"
    and eW: "files wc' = (if rank t = 3 then (files wc)(manifestFilePath w m \<mapsto> artifactOf w m)
                  else files wc)"
    and eWW: "doneWritten w (m, t') = doneWritten w (m, t) + (if rank t = 3 then {#m#} else {#})"
    and eM: "nodeManifestPagePathMap b' = (if rank t = 3 then upd w m (nodeManifestPagePathMap b)
                                   else nodeManifestPagePathMap b)"
    using fire_effect [OF env ok nf', of v b] by blast
  let ?tasks' = "tasks[k := (m, t')]"
  have fa: "fireAt v k (tasks, b, wc) = Inr (?tasks', b', wc')"
    by (simp add: fireAt_def mt f)
  have all': "list_all (\<lambda>mt. taskOK w (fst mt) (snd mt)) ?tasks'"
    using all ok' by (simp add: list_all_update)
  have iP': "totalProcessedManifests b' = sum_list (map (doneProcessed w) ?tasks')"
    using sum_list_map_update_delta [OF k, of "totalProcessedManifests b'" "doneProcessed w"
        "totalProcessedManifests b" "(m, t')" 0] eP iP
    by (simp add: mt)
  have iF': "totalFailedManifests b' = sum_list (map (doneFailed w) ?tasks')"
    using sum_list_map_update_delta [OF k, of "totalFailedManifests b'" "doneFailed w"
        "totalFailedManifests b" "(m, t')" 0] eF iF
    by (simp add: mt)
  have iR': "mset (reporter wc') = mset (reporter w) + sum_list (map (doneReported v w) ?tasks')"
    using sum_list_map_update_delta [OF k, of "mset (reporter wc')" "doneReported v w"
        "mset (reporter wc)" "(m, t')" "mset (reporter w)"] eR iR
    by (simp add: mt)
  have sub: "doneDirs w (tasks ! k) \<subseteq> doneDirs w (m, t')"
    using eDD by (auto simp: mt)
  have old: "doneDirs w (m, t) \<subseteq> (\<Union>mt\<in>set tasks. doneDirs w mt)"
    using k mt by (metis UN_upper nth_mem)
  have iD': "dirs wc' = dirs w \<union> (\<Union>mt\<in>set ?tasks'. doneDirs w mt)"
    unfolding UN_list_update [OF k sub] eD eDD iD using old by auto
  have sW: "sum_list (map (doneWritten w) ?tasks')
       = sum_list (map (doneWritten w) tasks) + (if rank t = 3 then {#m#} else {#})"
  proof -
    have "sum_list (map (doneWritten w) ?tasks') + doneWritten w (m, t)
        = sum_list (map (doneWritten w) tasks) + doneWritten w (m, t')"
      using sum_list_map_update [OF k, of "doneWritten w" "(m, t')"] by (simp add: mt)
    also have "\<dots> = (sum_list (map (doneWritten w) tasks) + (if rank t = 3 then {#m#} else {#}))
                      + doneWritten w (m, t)"
      by (simp add: eWW)
    finally show ?thesis by simp
  qed
  have iW': "\<forall>q. if q \<in> manifestFilePath w ` set_mset (sum_list (map (doneWritten w) ?tasks'))
                 then \<exists>m\<in>#sum_list (map (doneWritten w) ?tasks').
                        manifestFilePath w m = q \<and> files wc' q = Some (artifactOf w m)
                 else files wc' q = files w q"
  proof (cases "rank t = 3")
    case True
    have s: "sum_list (map (doneWritten w) ?tasks')
               = sum_list (map (doneWritten w) tasks) + {#m#}"
      and e: "files wc' = (files wc)(manifestFilePath w m \<mapsto> artifactOf w m)"
      using sW eW True by simp_all
    show ?thesis
      unfolding s e by (rule files_inv_step [OF iW])
  next
    case False
    have s: "sum_list (map (doneWritten w) ?tasks') = sum_list (map (doneWritten w) tasks)"
      and e: "files wc' = files wc"
      using sW eW False by simp_all
    show ?thesis
      unfolding s e by (rule iW)
  qed
  have inv': "batchInv v w (?tasks', b', wc')"
    unfolding batchInv_def Let_def fst_conv snd_conv
    using env' all' iP' iF' iR' iD' iW' by blast
  show ?thesis
    using that [of t' b' wc'] fa inv' rk nq fin sW eM
    by (simp add: m_def t_def)
qed

lemma Set_add_set [simp]: "set (Set_add x xs) = insert x (set xs)"
  by (auto simp: Set_add_def)

lemma Set_add_distinct [simp]: "distinct (Set_add x xs) = distinct xs"
  by (simp add: Set_add_def)

lemma fire_ids:
  assumes env: "sameEnvironment w wc" and ok: "taskOK w m t" and nf: "t \<noteq> Finished"
    and f: "fire v m t (b, wc) = Inr (t', b', wc')"
  shows "set (listOfUniqueErrorIds b')
           = (if rank t = (if presentIn w m then 1 else 0)
              then set (listOfUniqueErrorIds b) \<union> idsOf v w m
              else set (listOfUniqueErrorIds b))"
    and "doneIds v w (m, t')
           = (if rank t = (if presentIn w m then 1 else 0)
              then doneIds v w (m, t) \<union> idsOf v w m
              else doneIds v w (m, t))"
    and "distinct (listOfUniqueErrorIds b') = distinct (listOfUniqueErrorIds b)"
proof -
  have "set (listOfUniqueErrorIds b')
           = (if rank t = (if presentIn w m then 1 else 0)
              then set (listOfUniqueErrorIds b) \<union> idsOf v w m
              else set (listOfUniqueErrorIds b))
      \<and> doneIds v w (m, t')
           = (if rank t = (if presentIn w m then 1 else 0)
              then doneIds v w (m, t) \<union> idsOf v w m
              else doneIds v w (m, t))
      \<and> distinct (listOfUniqueErrorIds b') = distinct (listOfUniqueErrorIds b)"
  proof (cases t rule: rank.cases)
    case 1
    show ?thesis
      using f unfolding 1 fire_Queued [OF env]
      by (auto simp: doneIds_def idsOf_def split: if_splits)
  next
    case (2 fp)
    then have p: "presentIn w m" and fp: "fp = foundFor w m" using ok by simp_all
    show ?thesis
      using f unfolding 2 fp fire_FindPage [OF env]
      by (auto simp: doneIds_def idsOf_def p split: if_splits)
  next
    case (3 fr)
    then have p: "presentIn w m" and fr: "fr = frameOf w m" using ok by simp_all
    show ?thesis
      using f unfolding 3 fr fire_EnsureDir
      by (auto simp: doneIds_def idsOf_def p split: if_splits)
  next
    case (4 fr)
    then have p: "presentIn w m" and fr: "fr = frameOf w m" using ok by simp_all
    show ?thesis
      using f unfolding 4 fr fire_WriteJSON
      by (auto simp: doneIds_def idsOf_def p split: if_splits)
  next
    case (5 r)
    show ?thesis
      using f unfolding 5 fire_Processed
      by (auto simp: doneIds_def idsOf_def split: if_splits)
  next
    case 6
    show ?thesis
      using f unfolding 6 fire_Immediate
      by (auto simp: doneIds_def idsOf_def split: if_splits)
  next
    case 7
    then show ?thesis using nf by simp
  qed
  then show "set (listOfUniqueErrorIds b')
           = (if rank t = (if presentIn w m then 1 else 0)
              then set (listOfUniqueErrorIds b) \<union> idsOf v w m
              else set (listOfUniqueErrorIds b))"
    and "doneIds v w (m, t')
           = (if rank t = (if presentIn w m then 1 else 0)
              then doneIds v w (m, t) \<union> idsOf v w m
              else doneIds v w (m, t))"
    and "distinct (listOfUniqueErrorIds b') = distinct (listOfUniqueErrorIds b)"
    by blast+
qed

lemma fireAt_runInv:
  assumes inv: "runInv v w (tasks, b, wc)" and k: "k < length tasks"
    and nf: "snd (tasks ! k) \<noteq> Finished"
  obtains t' b' wc' where
    "fireAt v k (tasks, b, wc) = Inr (tasks[k := (fst (tasks ! k), t')], b', wc')"
    "runInv v w (tasks[k := (fst (tasks ! k), t')], b', wc')"
    "rank (snd (tasks ! k)) < rank t'" "t' \<noteq> Queued"
    "(t' = Finished) = (rank (snd (tasks ! k)) = 5)"
    "sum_list (map (doneWritten w) (tasks[k := (fst (tasks ! k), t')]))
       = sum_list (map (doneWritten w) tasks)
         + (if rank (snd (tasks ! k)) = 3 then {#fst (tasks ! k)#} else {#})"
    "nodeManifestPagePathMap b'
       = (if rank (snd (tasks ! k)) = 3
          then upd w (fst (tasks ! k)) (nodeManifestPagePathMap b)
          else nodeManifestPagePathMap b)"
proof -
  define m where "m = fst (tasks ! k)"
  define t where "t = snd (tasks ! k)"
  have mt: "tasks ! k = (m, t)" by (simp add: m_def t_def)
  have binv: "batchInv v w (tasks, b, wc)" and iinv: "idsInv v w (tasks, b, wc)"
    using inv by (simp_all add: runInv_def)
  have env: "sameEnvironment w wc"
    and all: "list_all (\<lambda>mt. taskOK w (fst mt) (snd mt)) tasks"
    using binv unfolding batchInv_def Let_def fst_conv snd_conv by blast+
  have ok: "taskOK w m t"
    using all k mt by (auto simp: list_all_length)
  have nf': "t \<noteq> Finished" using nf by (simp add: t_def)
  obtain t' b' wc' where
    fa: "fireAt v k (tasks, b, wc) = Inr (tasks[k := (m, t')], b', wc')"
    and binv': "batchInv v w (tasks[k := (m, t')], b', wc')"
    and rk: "rank t < rank t'" and nq: "t' \<noteq> Queued"
    and fin: "(t' = Finished) = (rank t = 5)"
    and sW: "sum_list (map (doneWritten w) (tasks[k := (m, t')]))
       = sum_list (map (doneWritten w) tasks) + (if rank t = 3 then {#m#} else {#})"
    and eM: "nodeManifestPagePathMap b'
       = (if rank t = 3 then upd w m (nodeManifestPagePathMap b)
          else nodeManifestPagePathMap b)"
    using fireAt_inv [OF binv k nf] unfolding m_def t_def by metis
  have f: "fire v m t (b, wc) = Inr (t', b', wc')"
  proof (cases "fire v m t (b, wc)")
    case (Inl e)
    then show ?thesis using fa by (simp add: fireAt_def mt)
  next
    case (Inr r)
    obtain t2 b2 wc2 where r: "r = (t2, b2, wc2)" by (cases r)
    have "tasks[k := (m, t2)] = tasks[k := (m, t')]" and "b2 = b'" and "wc2 = wc'"
      using fa Inr by (simp_all add: fireAt_def mt r)
    then have "(tasks[k := (m, t2)]) ! k = (tasks[k := (m, t')]) ! k" by simp
    then have "t2 = t'" using k by simp
    then show ?thesis using Inr r \<open>b2 = b'\<close> \<open>wc2 = wc'\<close> by simp
  qed
  note eI = fire_ids [OF env ok nf' f]
  have sub: "doneIds v w (tasks ! k) \<subseteq> doneIds v w (m, t')"
    using eI(2) by (auto simp: mt)
  have old: "doneIds v w (m, t) \<subseteq> (\<Union>mt\<in>set tasks. doneIds v w mt)"
    using k mt by (metis UN_upper nth_mem)
  have i0: "distinct (listOfUniqueErrorIds b)"
    and i1: "set (listOfUniqueErrorIds b) = (\<Union>mt\<in>set tasks. doneIds v w mt)"
    using iinv by (simp_all add: idsInv_def)
  have i1': "set (listOfUniqueErrorIds b') = (\<Union>mt\<in>set (tasks[k := (m, t')]). doneIds v w mt)"
    unfolding UN_list_update [OF k sub] eI(1) eI(2) i1 using old by auto
  have iinv': "idsInv v w (tasks[k := (m, t')], b', wc')"
    using i0 i1' eI(3) by (simp add: idsInv_def)
  show ?thesis
    using that [of t' b' wc'] fa binv' iinv' rk nq fin sW eM
    by (simp add: m_def t_def runInv_def)
qed

text \<open>\<^verbatim>\<open>push\<close> and the start of a waiting task are steps of a task.\<close>

lemma done_Queued [simp]:
  "doneProcessed w (m, Queued) = 0" "doneFailed w (m, Queued) = 0"
  "doneReported v w (m, Queued) = {#}" "doneDirs w (m, Queued) = {}"
  "doneWritten w (m, Queued) = {#}"
  by (simp_all add: done_defs)

lemma batchInv_iff:
  "batchInv v w (tasks, b, wc) =
     (sameEnvironment w wc
         \<and> list_all (\<lambda>mt. taskOK w (fst mt) (snd mt)) tasks
         \<and> totalProcessedManifests b = sum_list (map (doneProcessed w) tasks)
         \<and> totalFailedManifests b = sum_list (map (doneFailed w) tasks)
         \<and> mset (reporter wc) = mset (reporter w) + sum_list (map (doneReported v w) tasks)
         \<and> dirs wc = dirs w \<union> (\<Union>mt\<in>set tasks. doneDirs w mt)
         \<and> (\<forall>q. if q \<in> manifestFilePath w ` set_mset (sum_list (map (doneWritten w) tasks))
                 then \<exists>m\<in>#sum_list (map (doneWritten w) tasks).
                        manifestFilePath w m = q \<and> files wc q = Some (artifactOf w m)
                 else files wc q = files w q))"
  unfolding batchInv_def Let_def fst_conv snd_conv by (rule refl)

lemma batchInv_empty: "batchInv v w ([], emptyBatch, w)"
  unfolding batchInv_iff by (simp add: emptyBatch_def)

lemma batchInv_append_Queued:
  assumes "batchInv v w (tasks, b, wc)"
  shows "batchInv v w (tasks @ [(m, Queued)], b, wc)"
proof -
  note unf = assms [unfolded batchInv_iff]
  have eqW: "sum_list (map (doneWritten w) (tasks @ [(m, Queued)]))
               = sum_list (map (doneWritten w) tasks)"
    by simp
  show ?thesis
    unfolding batchInv_iff eqW
  proof (intro conjI)
    show "sameEnvironment w wc" using unf by blast
    show "list_all (\<lambda>mt. taskOK w (fst mt) (snd mt)) (tasks @ [(m, Queued)])"
      using unf [THEN conjunct2, THEN conjunct1] by simp
    show "totalProcessedManifests b = sum_list (map (doneProcessed w) (tasks @ [(m, Queued)]))"
      using unf [THEN conjunct2, THEN conjunct2, THEN conjunct1] by simp
    show "totalFailedManifests b = sum_list (map (doneFailed w) (tasks @ [(m, Queued)]))"
      using unf [THEN conjunct2, THEN conjunct2, THEN conjunct2, THEN conjunct1] by simp
    show "mset (reporter wc)
            = mset (reporter w) + sum_list (map (doneReported v w) (tasks @ [(m, Queued)]))"
      using unf [THEN conjunct2, THEN conjunct2, THEN conjunct2, THEN conjunct2, THEN conjunct1]
      by simp
    show "dirs wc = dirs w \<union> (\<Union>mt\<in>set (tasks @ [(m, Queued)]). doneDirs w mt)"
      using unf [THEN conjunct2, THEN conjunct2, THEN conjunct2, THEN conjunct2, THEN conjunct2,
          THEN conjunct1]
      by simp
    show "\<forall>q. if q \<in> manifestFilePath w ` set_mset (sum_list (map (doneWritten w) tasks))
                 then \<exists>m\<in>#sum_list (map (doneWritten w) tasks).
                        manifestFilePath w m = q \<and> files wc q = Some (artifactOf w m)
                 else files wc q = files w q"
      by (rule unf [THEN conjunct2, THEN conjunct2, THEN conjunct2, THEN conjunct2,
            THEN conjunct2, THEN conjunct2])
  qed
qed

lemma map_fst_update [simp]: "map fst (xs[k := (fst (xs ! k), t)]) = map fst xs"
proof (cases "k < length xs")
  case True
  then have "(map fst xs)[k := fst (xs ! k)] = map fst xs"
    by (metis list_update_id nth_map)
  then show ?thesis by (simp add: map_update)
next
  case False
  then have "xs[k := (fst (xs ! k), t)] = xs"
    by (simp add: not_less list_update_beyond)
  then show ?thesis by simp
qed

lemma runInv_empty: "runInv v w ([], emptyBatch, w)"
  using batchInv_empty [of v w] by (simp add: runInv_def idsInv_def emptyBatch_def)

lemma doneIds_Queued [simp]: "doneIds v w (m, Queued) = {}"
  by (simp add: doneIds_def)

lemma runInv_append_Queued:
  assumes "runInv v w (tasks, b, wc)"
  shows "runInv v w (tasks @ [(m, Queued)], b, wc)"
  using assms batchInv_append_Queued [of v w tasks b wc m]
  by (simp add: runInv_def idsInv_def)

lemma push_inv:
  assumes inv: "runInv v w st"
  shows "runInv v w (push c v m st)
         \<and> map fst (fst (push c v m st)) = map fst (fst st) @ [m]
         \<and> sum_list (map (doneWritten w) (fst (push c v m st)))
             = sum_list (map (doneWritten w) (fst st))
         \<and> nodeManifestPagePathMap (fst (snd (push c v m st)))
             = nodeManifestPagePathMap (fst (snd st))"
proof -
  obtain tasks b wc where st: "st = (tasks, b, wc)" by (cases st)
  let ?q = "tasks @ [(m, Queued)]"
  have q: "runInv v w (?q, b, wc)"
    using inv unfolding st by (rule runInv_append_Queued)
  show ?thesis
  proof (cases "running tasks \<ge> c")
    case True
    then show ?thesis using q by (simp add: push_def st)
  next
    case False
    have k: "length tasks < length ?q" by simp
    have nf: "snd (?q ! length tasks) \<noteq> Finished" by simp
    obtain t' b' wc' where
      fa: "fireAt v (length tasks) (?q, b, wc)
             = Inr (?q[length tasks := (fst (?q ! length tasks), t')], b', wc')"
      and inv': "runInv v w (?q[length tasks := (fst (?q ! length tasks), t')], b', wc')"
      and sw: "sum_list (map (doneWritten w) (?q[length tasks := (fst (?q ! length tasks), t')]))
         = sum_list (map (doneWritten w) ?q)
           + (if rank (snd (?q ! length tasks)) = 3 then {#fst (?q ! length tasks)#} else {#})"
      and pm: "nodeManifestPagePathMap b'
         = (if rank (snd (?q ! length tasks)) = 3
            then upd w (fst (?q ! length tasks)) (nodeManifestPagePathMap b)
            else nodeManifestPagePathMap b)"
      using fireAt_runInv [OF q k nf] by metis
    have "fireAt v (length tasks) (?q, b, wc) = Inr (push c v m st)"
      using False by (simp add: fireAt_def push_def st fire.simps split: prod.splits)
    then have r: "push c v m st = (?q[length tasks := (fst (?q ! length tasks), t')], b', wc')"
      using fa by simp
    show ?thesis
      unfolding r using inv' sw pm by (simp add: st)
  qed
qed

lemma fold_push_inv:
  assumes "runInv v w st"
  shows "runInv v w (fold (push c v) ms st)
         \<and> map fst (fst (fold (push c v) ms st)) = map fst (fst st) @ ms
         \<and> sum_list (map (doneWritten w) (fst (fold (push c v) ms st)))
             = sum_list (map (doneWritten w) (fst st))
         \<and> nodeManifestPagePathMap (fst (snd (fold (push c v) ms st)))
             = nodeManifestPagePathMap (fst (snd st))"
  using assms
proof (induction ms arbitrary: st)
  case Nil
  then show ?case by simp
next
  case (Cons m ms)
  from push_inv [OF Cons.prems, of c m] Cons.IH [of "push c v m st"]
  show ?case by simp
qed

lemma firstQueued_Some:
  "firstQueued tasks = Some j \<Longrightarrow> j < length tasks \<and> snd (tasks ! j) = Queued"
  by (induction tasks arbitrary: j) (auto split: if_splits)

lemma firstQueued_None:
  "firstQueued tasks = None \<Longrightarrow> \<forall>mt\<in>set tasks. snd mt \<noteq> Queued"
  by (induction tasks) (auto split: if_splits)

lemma rank_Queued [simp]: "(rank t = 0) = (t = Queued)"
  by (cases t rule: rank.cases) simp_all

lemma rank_le: "rank t \<le> 6"
  by (cases t rule: rank.cases) simp_all

lemma isInFlight_iff: "isInFlight t = (t \<noteq> Queued \<and> t \<noteq> Finished)"
  by (cases t) simp_all

lemma remaining_update:
  assumes "k < length tasks" and "rank (snd (tasks ! k)) < rank t'"
  shows "remaining (tasks[k := (m, t')]) < remaining tasks"
proof -
  have "remaining (tasks[k := (m, t')]) + (6 - rank (snd (tasks ! k)))
          = remaining tasks + (6 - rank t')"
    unfolding remaining_def
    using sum_list_map_update [OF assms(1), of "\<lambda>mt. 6 - rank (snd mt)" "(m, t')"] by simp
  moreover have "6 - rank t' < 6 - rank (snd (tasks ! k))"
    using assms(2) rank_le [of t'] by simp
  ultimately show ?thesis by simp
qed

lemma list_ex_update: "k < length xs \<Longrightarrow> P y \<Longrightarrow> list_ex P (xs[k := y])"
  unfolding list_ex_iff by (meson set_update_memI)

lemma release_inv:
  assumes inv: "runInv v w st"
  shows "runInv v w (release v st)
         \<and> map fst (fst (release v st)) = map fst (fst st)
         \<and> sum_list (map (doneWritten w) (fst (release v st)))
             = sum_list (map (doneWritten w) (fst st))
         \<and> nodeManifestPagePathMap (fst (snd (release v st)))
             = nodeManifestPagePathMap (fst (snd st))
         \<and> remaining (fst (release v st)) \<le> remaining (fst st)
         \<and> queueInv (fst (release v st))"
proof (cases "firstQueued (fst st)")
  case None
  have "\<not> list_ex (\<lambda>mt. snd mt = Queued) (fst st)"
    using firstQueued_None [OF None] by (simp add: list_ex_iff)
  then have "queueInv (fst st)" by (simp add: queueInv_def)
  then show ?thesis using inv None by (simp add: release_def)
next
  case (Some j)
  obtain tasks b wc where st: "st = (tasks, b, wc)" by (cases st)
  have j: "j < length tasks" and q: "snd (tasks ! j) = Queued"
    using firstQueued_Some Some by (auto simp: st)
  have nf: "snd (tasks ! j) \<noteq> Finished" using q by simp
  obtain t' b' wc' where
    fa: "fireAt v j (tasks, b, wc) = Inr (tasks[j := (fst (tasks ! j), t')], b', wc')"
    and inv': "runInv v w (tasks[j := (fst (tasks ! j), t')], b', wc')"
    and rk: "rank (snd (tasks ! j)) < rank t'" and nq: "t' \<noteq> Queued"
    and fin: "(t' = Finished) = (rank (snd (tasks ! j)) = 5)"
    and sw: "sum_list (map (doneWritten w) (tasks[j := (fst (tasks ! j), t')]))
       = sum_list (map (doneWritten w) tasks)
         + (if rank (snd (tasks ! j)) = 3 then {#fst (tasks ! j)#} else {#})"
    and pm: "nodeManifestPagePathMap b'
       = (if rank (snd (tasks ! j)) = 3
          then upd w (fst (tasks ! j)) (nodeManifestPagePathMap b)
          else nodeManifestPagePathMap b)"
    using fireAt_runInv [OF inv [unfolded st] j nf] by metis
  have "fireAt v j (tasks, b, wc) = Inr (release v st)"
    using Some q by (simp add: fireAt_def release_def st fire.simps split: prod.splits)
  then have r: "release v st = (tasks[j := (fst (tasks ! j), t')], b', wc')"
    using fa by simp
  have "isInFlight t'" using nq fin q by (simp add: isInFlight_iff)
  then have "list_ex (\<lambda>mt. isInFlight (snd mt)) (tasks[j := (fst (tasks ! j), t')])"
    using j by (simp add: list_ex_update)
  then have qi: "queueInv (tasks[j := (fst (tasks ! j), t')])" by (simp add: queueInv_def)
  have rem: "remaining (tasks[j := (fst (tasks ! j), t')]) < remaining tasks"
    using j rk by (rule remaining_update)
  show ?thesis
    unfolding r using inv' sw pm q qi rem by (simp add: st)
qed

text \<open>A turn of the event loop, and a run of turns: it throws no exception, keeps the
  invariant, and sets the page path map in the order in which the tasks pass lines
  310-312. From every queue in which some task is in flight as long as one waits, a run
  to the drain exists.\<close>

lemma fireAt_fire:
  assumes k: "k < length tasks"
    and fa: "fireAt v k (tasks, b, wc) = Inr (tasks[k := (fst (tasks ! k), t')], b', wc')"
  shows "fire v (fst (tasks ! k)) (snd (tasks ! k)) (b, wc) = Inr (t', b', wc')"
proof (cases "fire v (fst (tasks ! k)) (snd (tasks ! k)) (b, wc)")
  case (Inl e)
  then show ?thesis using fa by (simp add: fireAt_def)
next
  case (Inr r)
  obtain t2 b2 wc2 where r: "r = (t2, b2, wc2)" by (cases r)
  have "tasks[k := (fst (tasks ! k), t2)] = tasks[k := (fst (tasks ! k), t')]"
    and "b2 = b'" and "wc2 = wc'"
    using fa Inr by (simp_all add: fireAt_def r)
  then have "(tasks[k := (fst (tasks ! k), t2)]) ! k = (tasks[k := (fst (tasks ! k), t')]) ! k"
    by simp
  then have "t2 = t'" using k by simp
  then show ?thesis using Inr r \<open>b2 = b'\<close> \<open>wc2 = wc'\<close> by simp
qed

lemma event_Some:
  "event v i st = Some r \<Longrightarrow> i < length (fst st) \<and> isInFlight (snd (fst st ! i))"
  by (auto simp: event_def split: if_splits TaskState.splits)

lemma event_step:
  assumes inv: "runInv v w (tasks, b, wc)" and i: "i < length tasks"
    and fl: "isInFlight (snd (tasks ! i))"
  obtains st' where
    "event v i (tasks, b, wc) = Some (Inr st')" "runInv v w st'"
    "map fst (fst st') = map fst tasks"
    "sum_list (map (doneWritten w) (fst st'))
       = sum_list (map (doneWritten w) tasks)
         + (if rank (snd (tasks ! i)) = 3 then {#fst (tasks ! i)#} else {#})"
    "nodeManifestPagePathMap (fst (snd st'))
       = (if rank (snd (tasks ! i)) = 3
          then upd w (fst (tasks ! i)) (nodeManifestPagePathMap b)
          else nodeManifestPagePathMap b)"
    "remaining (fst st') < remaining tasks" "queueInv (fst st')"
proof -
  obtain stage where stage: "snd (tasks ! i) = InFlight stage"
    using fl by (cases "snd (tasks ! i)") simp_all
  have nf: "snd (tasks ! i) \<noteq> Finished" using stage by simp
  obtain t' b' wc' where
    fa: "fireAt v i (tasks, b, wc) = Inr (tasks[i := (fst (tasks ! i), t')], b', wc')"
    and inv': "runInv v w (tasks[i := (fst (tasks ! i), t')], b', wc')"
    and rk: "rank (snd (tasks ! i)) < rank t'" and nq: "t' \<noteq> Queued"
    and fin: "(t' = Finished) = (rank (snd (tasks ! i)) = 5)"
    and sw: "sum_list (map (doneWritten w) (tasks[i := (fst (tasks ! i), t')]))
       = sum_list (map (doneWritten w) tasks)
         + (if rank (snd (tasks ! i)) = 3 then {#fst (tasks ! i)#} else {#})"
    and pm: "nodeManifestPagePathMap b'
       = (if rank (snd (tasks ! i)) = 3
          then upd w (fst (tasks ! i)) (nodeManifestPagePathMap b)
          else nodeManifestPagePathMap b)"
    using fireAt_runInv [OF inv i nf] by metis
  let ?st1 = "(tasks[i := (fst (tasks ! i), t')], b', wc')"
  have "fire v (fst (tasks ! i)) (snd (tasks ! i)) (b, wc) = Inr (t', b', wc')"
    using i fa by (rule fireAt_fire)
  then have res: "resume v (fst (tasks ! i)) stage (b, wc) = Inr (t', b', wc')"
    by (simp add: stage fire.simps)
  have ev: "event v i (tasks, b, wc)
              = Some (Inr (if t' = Finished then release v ?st1 else ?st1))"
    using i by (simp add: event_def stage res)
  have rem: "remaining (tasks[i := (fst (tasks ! i), t')]) < remaining tasks"
    using i rk by (rule remaining_update)
  show ?thesis
  proof (cases "t' = Finished")
    case True
    note rel = release_inv [OF inv']
    show ?thesis
      by (rule that [of "release v ?st1"]) (use ev True rel sw pm rem in simp_all)
  next
    case False
    have "isInFlight t'" using nq False by (simp add: isInFlight_iff)
    then have "list_ex (\<lambda>mt. isInFlight (snd mt)) (tasks[i := (fst (tasks ! i), t')])"
      using i by (simp add: list_ex_update)
    then have qi: "queueInv (tasks[i := (fst (tasks ! i), t')])" by (simp add: queueInv_def)
    show ?thesis
      by (rule that [of ?st1]) (use ev False inv' sw pm rem qi in simp_all)
  qed
qed

lemma setOrder_case:
  "(case t of InFlight (AwaitWriteJSON fr) \<Rightarrow> a | _ \<Rightarrow> c) = (if rank t = 3 then a else c)"
  by (cases t rule: rank.cases) simp_all

lemma runEvents_inv:
  assumes "runInv v w st" and "runEvents v schedule st = Some r"
  shows "\<exists>st'. r = Inr st' \<and> runInv v w st'
           \<and> map fst (fst st') = map fst (fst st)
           \<and> sum_list (map (doneWritten w) (fst st'))
               = sum_list (map (doneWritten w) (fst st)) + mset (setOrder v schedule st)
           \<and> nodeManifestPagePathMap (fst (snd st'))
               = fold (upd w) (setOrder v schedule st) (nodeManifestPagePathMap (fst (snd st)))"
  using assms
proof (induction schedule arbitrary: st)
  case Nil
  then have "r = Inr st" by simp
  then show ?case using Nil.prems(1) by (intro exI [of _ st]) simp
next
  case (Cons i schedule)
  obtain tasks b wc where st: "st = (tasks, b, wc)" by (cases st)
  from Cons.prems(2) obtain r1 where r1: "event v i st = Some r1"
    by (cases "event v i st") simp_all
  have i: "i < length tasks" and fl: "isInFlight (snd (tasks ! i))"
    using event_Some [OF r1] by (simp_all add: st)
  obtain st1 where
    ev: "event v i (tasks, b, wc) = Some (Inr st1)" and inv1: "runInv v w st1"
    and mf: "map fst (fst st1) = map fst tasks"
    and sw: "sum_list (map (doneWritten w) (fst st1))
       = sum_list (map (doneWritten w) tasks)
         + (if rank (snd (tasks ! i)) = 3 then {#fst (tasks ! i)#} else {#})"
    and pm: "nodeManifestPagePathMap (fst (snd st1))
       = (if rank (snd (tasks ! i)) = 3
          then upd w (fst (tasks ! i)) (nodeManifestPagePathMap b)
          else nodeManifestPagePathMap b)"
    using event_step [OF Cons.prems(1) [unfolded st] i fl] by metis
  have run: "runEvents v schedule st1 = Some r"
    using Cons.prems(2) ev by (simp add: st)
  from Cons.IH [OF inv1 run] obtain st' where
    r: "r = Inr st'" and inv': "runInv v w st'"
    and mf': "map fst (fst st') = map fst (fst st1)"
    and sw': "sum_list (map (doneWritten w) (fst st'))
               = sum_list (map (doneWritten w) (fst st1)) + mset (setOrder v schedule st1)"
    and pm': "nodeManifestPagePathMap (fst (snd st'))
               = fold (upd w) (setOrder v schedule st1) (nodeManifestPagePathMap (fst (snd st1)))"
    by blast
  have so: "setOrder v (i # schedule) st
              = (if rank (snd (tasks ! i)) = 3 then fst (tasks ! i) # setOrder v schedule st1
                 else setOrder v schedule st1)"
    using ev by (simp add: st setOrder_case)
  show ?case
    using r inv' mf' mf sw' sw pm' pm unfolding so
    by (intro exI [of _ st']) (simp add: st)
qed

lemma run_exists:
  assumes "runInv v w st" and "queueInv (fst st)"
  shows "\<exists>schedule st'. runEvents v schedule st = Some (Inr st') \<and> drained (fst st')"
  using assms
proof (induction "remaining (fst st)" arbitrary: st rule: less_induct)
  case less
  obtain tasks b wc where st: "st = (tasks, b, wc)" by (cases st)
  show ?case
  proof (cases "drained tasks")
    case True
    have "runEvents v [] st = Some (Inr st)" by simp
    then show ?thesis using True st by (metis fst_conv)
  next
    case False
    then obtain mt where mt: "mt \<in> set tasks" "snd mt \<noteq> Finished"
      by (auto simp: drained_def list_all_iff)
    have "list_ex (\<lambda>mt. isInFlight (snd mt)) tasks"
    proof (cases "snd mt = Queued")
      case True
      then have "list_ex (\<lambda>mt. snd mt = Queued) tasks" using mt by (auto simp: list_ex_iff)
      then show ?thesis using less.prems(2) by (simp add: queueInv_def st)
    next
      case False
      then have "isInFlight (snd mt)" using mt by (simp add: isInFlight_iff)
      then show ?thesis using mt by (auto simp: list_ex_iff)
    qed
    then obtain i where i: "i < length tasks" and fl: "isInFlight (snd (tasks ! i))"
      by (auto simp: list_ex_iff in_set_conv_nth)
    obtain st1 where
      ev: "event v i (tasks, b, wc) = Some (Inr st1)" and inv1: "runInv v w st1"
      and rem: "remaining (fst st1) < remaining tasks" and qi: "queueInv (fst st1)"
      using event_step [OF less.prems(1) [unfolded st] i fl] by metis
    from less.hyps [OF _ inv1 qi] rem obtain schedule st' where
      "runEvents v schedule st1 = Some (Inr st')" "drained (fst st')"
      by (auto simp: st)
    then have "runEvents v (i # schedule) st = Some (Inr st') \<and> drained (fst st')"
      using ev by (simp add: st)
    then show ?thesis by blast
  qed
qed

text \<open>After the pushes, and at the drain.\<close>

lemma running_pos: "0 < running tasks \<Longrightarrow> list_ex (\<lambda>mt. isInFlight (snd mt)) tasks"
  unfolding running_def list_ex_iff
  by (metis filter_False length_greater_0_conv)

lemma push_queueInv: "0 < c \<Longrightarrow> queueInv (fst (push c v m st))"
proof (cases "running (fst st) \<ge> c")
  case True
  assume "0 < c"
  then have "list_ex (\<lambda>mt. isInFlight (snd mt)) (fst st)"
    using True by (intro running_pos) simp
  then show ?thesis using True by (simp add: push_def queueInv_def)
next
  case False
  then show ?thesis by (simp add: push_def queueInv_def split: prod.splits)
qed

lemma fold_push_queueInv:
  "0 < c \<Longrightarrow> queueInv (fst st) \<Longrightarrow> queueInv (fst (fold (push c v) ms st))"
proof (induction ms arbitrary: st)
  case Nil
  then show ?case by simp
next
  case (Cons m ms)
  have "queueInv (fst (push c v m st))" using Cons.prems(1) by (rule push_queueInv)
  from Cons.IH [OF Cons.prems(1) this] show ?case by simp
qed

lemma pushed_inv:
  "runInv (verboseLogsOf w) w (pushed w)"
  "map fst (fst (pushed w)) = nodeManifests (store w)"
  "sum_list (map (doneWritten w) (fst (pushed w))) = {#}"
  "nodeManifestPagePathMap (fst (snd (pushed w))) = []"
  "queueInv (fst (pushed w))"
  using fold_push_inv [OF runInv_empty, of "verboseLogsOf w" w 25 "nodeManifests (store w)"]
    fold_push_queueInv [of 25 "([], emptyBatch, w)" "verboseLogsOf w" "nodeManifests (store w)"]
  by (simp_all add: pushed_def emptyBatch_def queueInv_def)

lemma reportedBy_Finished:
  "snd mt = Finished \<Longrightarrow> doneReported v w mt = mset (reportedBy v w (fst mt))"
  by (simp add: doneReported_def reportedBy_def)

lemma drained_sums:
  assumes "drained tasks"
  shows "sum_list (map (doneProcessed w) tasks) = length (filter (presentIn w) (map fst tasks))"
    and "sum_list (map (doneFailed w) tasks)
           = length (filter (\<lambda>m. \<not> presentIn w m) (map fst tasks))"
    and "sum_list (map (doneReported v w) tasks)
           = mset (concat (map (reportedBy v w) (map fst tasks)))"
    and "sum_list (map (doneWritten w) tasks) = mset (filter (presentIn w) (map fst tasks))"
  using assms
proof (induction tasks)
  case Nil
  {
    case 1 show ?case by simp
  next
    case 2 show ?case by simp
  next
    case 3 show ?case by simp
  next
    case 4 show ?case by simp
  }
next
  case (Cons mt tasks)
  {
    case 1
    then have d: "snd mt = Finished" "drained tasks" by (simp_all add: drained_def)
    show ?case using Cons.IH(1) [OF d(2)] d(1) by (simp add: doneProcessed_def)
  next
    case 2
    then have d: "snd mt = Finished" "drained tasks" by (simp_all add: drained_def)
    show ?case using Cons.IH(2) [OF d(2)] d(1) by (simp add: doneFailed_def)
  next
    case 3
    then have d: "snd mt = Finished" "drained tasks" by (simp_all add: drained_def)
    show ?case using Cons.IH(3) [OF d(2)] reportedBy_Finished [OF d(1)] by simp
  next
    case 4
    then have d: "snd mt = Finished" "drained tasks" by (simp_all add: drained_def)
    show ?case using Cons.IH(4) [OF d(2)] d(1) by (simp add: doneWritten_def)
  }
qed

lemma drained_unions:
  assumes "drained tasks"
  shows "(\<Union>mt\<in>set tasks. doneDirs w mt)
           = (\<lambda>m. path_dirname w (manifestFilePath w m))
               ` {m \<in> set (map fst tasks). presentIn w m}"
    and "(\<Union>mt\<in>set tasks. doneIds v w mt) = (\<Union>m\<in>set (map fst tasks). idsOf v w m)"
proof -
  have fin: "\<And>mt. mt \<in> set tasks \<Longrightarrow> snd mt = Finished"
    using assms by (simp add: drained_def list_all_iff)
  have a: "\<And>mt. mt \<in> set tasks \<Longrightarrow>
             doneDirs w mt = (if presentIn w (fst mt)
                              then {path_dirname w (manifestFilePath w (fst mt))} else {})"
    using fin by (simp add: doneDirs_def)
  have b: "\<And>mt. mt \<in> set tasks \<Longrightarrow> doneIds v w mt = idsOf v w (fst mt)"
    using fin by (simp add: doneIds_def)
  show "(\<Union>mt\<in>set tasks. doneDirs w mt)
           = (\<lambda>m. path_dirname w (manifestFilePath w m))
               ` {m \<in> set (map fst tasks). presentIn w m}"
    using a by (force split: if_splits)
  show "(\<Union>mt\<in>set tasks. doneIds v w mt) = (\<Union>m\<in>set (map fst tasks). idsOf v w m)"
    using b by force
qed

text \<open>What a run of \<^const>\<open>processNodeManifests\<close> returns and leaves behind.\<close>

lemma processNodeManifests_unfold:
  assumes "nodeManifests (store w) \<noteq> []"
  shows "processNodeManifests schedule t0 t1 w =
     (case runEvents (verboseLogsOf w) schedule (pushed w) of
        None \<Rightarrow> None
      | Some (Inl e) \<Rightarrow> Some (Inl e)
      | Some (Inr (tasks, b, w1)) \<Rightarrow>
          if drained tasks
          then Some (Inr (Some (nodeManifestPagePathMap b),
                 dispatch DELETE_NODE_MANIFESTS
                   (w1\<lparr> reporter := reporter w1 @
                          [InfoWroteOut (totalProcessedManifests b)
                             (totalFailedManifests b) (t1 - t0),
                           InfoWarnings
                             (if \<not> verboseLogsOf w \<and> length (listOfUniqueErrorIds b) > 0
                              then listOfUniqueErrorIds b else [])] \<rparr>)))
          else None)"
  unfolding processNodeManifests_def Let_def verboseLogsOf_def pushed_def
  using assms by simp

lemma processNodeManifests_run:
  assumes ne: "nodeManifests (store w) \<noteq> []"
    and run: "processNodeManifests schedule t0 t1 w = Some r"
  obtains b :: Batch and wc :: World where
    "r = Inr (Some (nodeManifestPagePathMap b),
              dispatch DELETE_NODE_MANIFESTS
                (wc\<lparr> reporter := reporter wc @
                       [InfoWroteOut (totalProcessedManifests b)
                          (totalFailedManifests b) (t1 - t0),
                        InfoWarnings
                          (if \<not> verboseLogsOf w \<and> length (listOfUniqueErrorIds b) > 0
                           then listOfUniqueErrorIds b else [])] \<rparr>))"
    "sameEnvironment w wc"
    "totalProcessedManifests b = length (filter (presentIn w) (nodeManifests (store w)))"
    "totalFailedManifests b
       = length (filter (\<lambda>m. \<not> presentIn w m) (nodeManifests (store w)))"
    "mset (reporter wc)
       = mset (reporter w)
         + mset (concat (map (reportedBy (verboseLogsOf w) w) (nodeManifests (store w))))"
    "dirs wc = dirs w \<union> (\<lambda>m. path_dirname w (manifestFilePath w m))
                         ` {m \<in> set (nodeManifests (store w)). presentIn w m}"
    "\<forall>q. if q \<in> manifestFilePath w ` {m \<in> set (nodeManifests (store w)). presentIn w m}
         then \<exists>m\<in>set (nodeManifests (store w)).
                presentIn w m \<and> manifestFilePath w m = q \<and> files wc q = Some (artifactOf w m)
         else files wc q = files w q"
    "distinct (listOfUniqueErrorIds b)"
    "set (listOfUniqueErrorIds b)
       = (\<Union>m\<in>set (nodeManifests (store w)). idsOf (verboseLogsOf w) w m)"
    "mset (completionOrder schedule w) = mset (filter (presentIn w) (nodeManifests (store w)))"
    "nodeManifestPagePathMap b = fold (upd w) (completionOrder schedule w) []"
proof -
  let ?v = "verboseLogsOf w"
  let ?ms = "nodeManifests (store w)"
  note pd = processNodeManifests_unfold [OF ne, of schedule t0 t1]
  obtain r1 where r1: "runEvents ?v schedule (pushed w) = Some r1"
    using run unfolding pd by (cases "runEvents ?v schedule (pushed w)") simp_all
  from runEvents_inv [OF pushed_inv(1) r1] obtain st' where
    st': "r1 = Inr st'" and inv: "runInv ?v w st'"
    and mf: "map fst (fst st') = map fst (fst (pushed w))"
    and sw: "sum_list (map (doneWritten w) (fst st'))
               = sum_list (map (doneWritten w) (fst (pushed w)))
                 + mset (setOrder ?v schedule (pushed w))"
    and pm: "nodeManifestPagePathMap (fst (snd st'))
               = fold (upd w) (setOrder ?v schedule (pushed w))
                   (nodeManifestPagePathMap (fst (snd (pushed w))))"
    by blast
  obtain tasks b wc where s: "st' = (tasks, b, wc)" by (cases st')
  have dr: "drained tasks"
    using run unfolding pd r1 st' s by (simp split: if_splits)
  have res: "r = Inr (Some (nodeManifestPagePathMap b),
              dispatch DELETE_NODE_MANIFESTS
                (wc\<lparr> reporter := reporter wc @
                       [InfoWroteOut (totalProcessedManifests b)
                          (totalFailedManifests b) (t1 - t0),
                        InfoWarnings
                          (if \<not> verboseLogsOf w \<and> length (listOfUniqueErrorIds b) > 0
                           then listOfUniqueErrorIds b else [])] \<rparr>))"
    using run dr unfolding pd r1 st' s by simp
  have ms: "map fst tasks = ?ms"
    using mf pushed_inv(2) [of w] by (simp add: s)
  have binv: "batchInv ?v w (tasks, b, wc)" and iinv: "idsInv ?v w (tasks, b, wc)"
    using inv by (simp_all add: runInv_def s)
  note unf = binv [unfolded batchInv_iff]
  note env = unf [THEN conjunct1]
    and iP = unf [THEN conjunct2, THEN conjunct2, THEN conjunct1]
    and iF = unf [THEN conjunct2, THEN conjunct2, THEN conjunct2, THEN conjunct1]
    and iR = unf [THEN conjunct2, THEN conjunct2, THEN conjunct2, THEN conjunct2, THEN conjunct1]
    and iD = unf [THEN conjunct2, THEN conjunct2, THEN conjunct2, THEN conjunct2, THEN conjunct2,
                  THEN conjunct1]
    and iW = unf [THEN conjunct2, THEN conjunct2, THEN conjunct2, THEN conjunct2, THEN conjunct2,
                  THEN conjunct2]
  note sums = drained_sums [OF dr, where w = w, unfolded ms]
  note uns = drained_unions [OF dr, where w = w, unfolded ms]
  have written: "sum_list (map (doneWritten w) tasks) = mset (filter (presentIn w) ?ms)"
    by (rule sums(4))
  have sm: "set_mset (mset (filter (presentIn w) ?ms)) = {m \<in> set ?ms. presentIn w m}"
    by auto
  have files: "\<forall>q. if q \<in> manifestFilePath w ` {m \<in> set ?ms. presentIn w m}
         then \<exists>m\<in>set ?ms.
                presentIn w m \<and> manifestFilePath w m = q \<and> files wc q = Some (artifactOf w m)
         else files wc q = files w q"
  proof
    fix q
    from iW [unfolded written sm, THEN spec, of q]
    show "if q \<in> manifestFilePath w ` {m \<in> set ?ms. presentIn w m}
         then \<exists>m\<in>set ?ms.
                presentIn w m \<and> manifestFilePath w m = q \<and> files wc q = Some (artifactOf w m)
         else files wc q = files w q"
      by (cases "q \<in> manifestFilePath w ` {m \<in> set ?ms. presentIn w m}") auto
  qed
  have order: "mset (completionOrder schedule w) = mset (filter (presentIn w) ?ms)"
    using sw written pushed_inv(3) [of w] by (simp add: s completionOrder_def)
  have pmap: "nodeManifestPagePathMap b = fold (upd w) (completionOrder schedule w) []"
    using pm pushed_inv(4) [of w] by (simp add: s completionOrder_def)
  have ids: "distinct (listOfUniqueErrorIds b)"
    "set (listOfUniqueErrorIds b) = (\<Union>m\<in>set ?ms. idsOf ?v w m)"
    using iinv uns(2) [where v = "verboseLogsOf w"] by (simp_all add: idsInv_def)
  show ?thesis
  proof (rule that [of b wc])
    show "r = Inr (Some (nodeManifestPagePathMap b),
              dispatch DELETE_NODE_MANIFESTS
                (wc\<lparr> reporter := reporter wc @
                       [InfoWroteOut (totalProcessedManifests b)
                          (totalFailedManifests b) (t1 - t0),
                        InfoWarnings
                          (if \<not> verboseLogsOf w \<and> length (listOfUniqueErrorIds b) > 0
                           then listOfUniqueErrorIds b else [])] \<rparr>))"
      by (rule res)
    show "sameEnvironment w wc" by (rule env)
    show "totalProcessedManifests b = length (filter (presentIn w) ?ms)"
      using iP sums(1) by simp
    show "totalFailedManifests b = length (filter (\<lambda>m. \<not> presentIn w m) ?ms)"
      using iF sums(2) by simp
    show "mset (reporter wc)
       = mset (reporter w) + mset (concat (map (reportedBy ?v w) ?ms))"
      using iR sums(3) [where v = "verboseLogsOf w"] by simp
    show "dirs wc = dirs w \<union> (\<lambda>m. path_dirname w (manifestFilePath w m))
                         ` {m \<in> set ?ms. presentIn w m}"
      using iD uns(1) by simp
    show "\<forall>q. if q \<in> manifestFilePath w ` {m \<in> set ?ms. presentIn w m}
         then \<exists>m\<in>set ?ms.
                presentIn w m \<and> manifestFilePath w m = q \<and> files wc q = Some (artifactOf w m)
         else files wc q = files w q"
      by (rule files)
    show "distinct (listOfUniqueErrorIds b)" by (rule ids(1))
    show "set (listOfUniqueErrorIds b) = (\<Union>m\<in>set ?ms. idsOf ?v w m)" by (rule ids(2))
    show "mset (completionOrder schedule w) = mset (filter (presentIn w) ?ms)" by (rule order)
    show "nodeManifestPagePathMap b = fold (upd w) (completionOrder schedule w) []"
      by (rule pmap)
  qed
qed

lemma processNodeManifests_runs:
  assumes ne: "nodeManifests (store w) \<noteq> []"
  shows "\<exists>schedule r. processNodeManifests schedule t0 t1 w = Some (Inr r)"
proof -
  from run_exists [OF pushed_inv(1) pushed_inv(5), of w] obtain schedule st' where
    r: "runEvents (verboseLogsOf w) schedule (pushed w) = Some (Inr st')"
    and d: "drained (fst st')"
    by blast
  obtain tasks b wc where s: "st' = (tasks, b, wc)" by (cases st')
  show ?thesis
    unfolding processNodeManifests_unfold [OF ne]
    by (intro exI [of _ schedule]) (use r d s in simp)
qed

text \<open>The page path map that a sequence of tasks sets.\<close>

lemma fold_entries_distinct:
  "distinct (map fst pm) \<Longrightarrow>
   distinct (map fst (fold (\<lambda>m pm. case e m of None \<Rightarrow> pm
                       | Some (p, base) \<Rightarrow> AList.update p base pm) ms pm))"
  by (induction ms arbitrary: pm) (auto simp: distinct_update split: option.splits)

lemma fold_entries_map_of:
  "map_of (fold (\<lambda>m pm. case e m of None \<Rightarrow> pm
                       | Some (p, base) \<Rightarrow> AList.update p base pm) ms pm) p
     = (case filter (\<lambda>m. \<exists>base. e m = Some (p, base)) ms of
          [] \<Rightarrow> map_of pm p
        | m # rest \<Rightarrow> map_option snd (e (last (m # rest))))"
proof (induction ms arbitrary: pm)
  case Nil
  show ?case by simp
next
  case (Cons m ms)
  show ?case
  proof (cases "e m")
    case None
    then show ?thesis using Cons.IH [of pm] by simp
  next
    case (Some pb)
    obtain q base where pb: "pb = (q, base)" by (cases pb)
    show ?thesis
    proof (cases "q = p")
      case True
      then show ?thesis
        using Cons.IH [of "AList.update q base pm"] Some pb
        by (simp add: update_conv' split: list.splits)
    next
      case False
      then show ?thesis
        using Cons.IH [of "AList.update q base pm"] Some pb
        by (simp add: update_conv' split: list.splits)
    qed
  qed
qed

lemma pagePathEntry_present:
  "presentIn w m \<Longrightarrow>
   pagePathEntry w m = (case page_path (foundFor w m) of None \<Rightarrow> None
                        | Some p \<Rightarrow> Some (p, fileNameBase (proc w) m))"
  by (auto simp: pagePathEntry_def presentIn_def foundFor_def)

lemma pathMap_lookup:
  assumes "\<forall>m\<in>set order. presentIn w m"
  shows "distinct (map fst (fold (upd w) order []))"
    and "map_of (fold (upd w) order []) p =
           (case filter (\<lambda>m. page_path (foundFor w m) = Some p) order of
              [] \<Rightarrow> None
            | m # rest \<Rightarrow> Some (fileNameBase (proc w) (last (m # rest))))"
proof -
  have u: "upd w = (\<lambda>m pm. case pagePathEntry w m of None \<Rightarrow> pm
                           | Some (p, base) \<Rightarrow> AList.update p base pm)"
    by (simp add: upd_def fun_eq_iff)
  show "distinct (map fst (fold (upd w) order []))"
    unfolding u by (rule fold_entries_distinct) simp
  let ?P = "\<lambda>m. page_path (foundFor w m) = Some p"
  have f: "filter (\<lambda>m. \<exists>base. pagePathEntry w m = Some (p, base)) order = filter ?P order"
    using assms by (intro filter_cong) (auto simp: pagePathEntry_present split: option.splits)
  have l: "map_of (fold (upd w) order []) p =
             (case filter ?P order of [] \<Rightarrow> None
              | m # rest \<Rightarrow> map_option snd (pagePathEntry w (last (m # rest))))"
    unfolding u fold_entries_map_of f by (simp split: list.splits)
  show "map_of (fold (upd w) order []) p =
           (case filter ?P order of
              [] \<Rightarrow> None
            | m # rest \<Rightarrow> Some (fileNameBase (proc w) (last (m # rest))))"
  proof (cases "filter ?P order")
    case Nil
    then show ?thesis using l by simp
  next
    case (Cons m rest)
    have "last (m # rest) \<in> set (filter ?P order)"
      unfolding Cons by (rule last_in_set) simp
    then have "?P (last (m # rest))" and "presentIn w (last (m # rest))"
      using assms by simp_all
    then have "pagePathEntry w (last (m # rest))
                 = Some (p, fileNameBase (proc w) (last (m # rest)))"
      by (simp add: pagePathEntry_present)
    then show ?thesis using l Cons by simp
  qed
qed

lemma dispatch_fields:
  "store (dispatch DELETE_NODE_MANIFESTS w) = (store w)\<lparr> nodeManifests := [] \<rparr>"
  "dispatched (dispatch DELETE_NODE_MANIFESTS w) = dispatched w @ [DELETE_NODE_MANIFESTS]"
  "reporter (dispatch DELETE_NODE_MANIFESTS w) = reporter w"
  "files (dispatch DELETE_NODE_MANIFESTS w) = files w"
  "dirs (dispatch DELETE_NODE_MANIFESTS w) = dirs w"
  "proc (dispatch DELETE_NODE_MANIFESTS w) = proc w"
  "datastore (dispatch DELETE_NODE_MANIFESTS w) = datastore w"
  by simp_all

section \<open>The batch\<close>

text \<open>
  Claim C8. With no pending manifest \<^verbatim>\<open>processNodeManifests\<close> returns null and leaves
  the world as it is, with no file written, no message and no dispatch. With pending
  manifests, read once at the start, a run to the drain exists, and every run, whatever
  the order in which the file system calls of the tasks resolve, ends without an
  exception and returns the page path map. In the world it leaves
  \<^item> the one action \<^verbatim>\<open>DELETE_NODE_MANIFESTS\<close> has been dispatched and the pending
    list is empty (this by the reducer as the specification describes it);
  \<^item> a file path that the manifest of a pending request with an existing node is
    written to holds the manifest of such a request, every other path holds what it
    held before, and the directories of the paths written exist;
  \<^item> the reporter has received, in some order, the messages of every pending request,
    each once, then the summary with the number of requests whose node exists, the
    number of those whose node is missing and the elapsed time, and then the line of
    warnings with the ids, each once, that the requests give when the logs are not
    verbose;
  \<^item> the requests whose tasks have passed lines 310-312 are the pending requests with
    an existing node, each once;
  \<^item> the page path map has an entry for a page path exactly when a pending request
    with an existing node resolves to that path, and the entry is the file name base
    of such a request.
\<close>

theorem processNodeManifests_batch:
  "(nodeManifests (store w) = []
      \<longrightarrow> processNodeManifests schedule t0 t1 w = Some (Inr (None, w)))
   \<and> (nodeManifests (store w) \<noteq> []
      \<longrightarrow> (\<exists>s r. processNodeManifests s t0 t1 w = Some (Inr r))
        \<and> (\<forall>r. processNodeManifests schedule t0 t1 w = Some r
             \<longrightarrow> (\<exists>pathMap w' log ids.
                    r = Inr (Some pathMap, w')
                    \<and> store w' = (store w)\<lparr> nodeManifests := [] \<rparr>
                    \<and> dispatched w' = dispatched w @ [DELETE_NODE_MANIFESTS]
                    \<and> proc w' = proc w \<and> datastore w' = datastore w
                    \<and> (\<forall>q. if q \<in> manifestFilePath w
                                     ` {m \<in> set (nodeManifests (store w)). presentIn w m}
                            then \<exists>m\<in>set (nodeManifests (store w)).
                                   presentIn w m \<and> manifestFilePath w m = q
                                   \<and> files w' q = Some (artifactOf w m)
                            else files w' q = files w q)
                    \<and> dirs w' = dirs w \<union> (\<lambda>m. path_dirname w (manifestFilePath w m))
                                           ` {m \<in> set (nodeManifests (store w)). presentIn w m}
                    \<and> reporter w'
                        = log @ [InfoWroteOut
                                   (length (filter (presentIn w) (nodeManifests (store w))))
                                   (length (filter (\<lambda>m. \<not> presentIn w m)
                                              (nodeManifests (store w))))
                                   (t1 - t0),
                                 InfoWarnings ids]
                    \<and> mset log
                        = mset (reporter w)
                          + mset (concat (map (reportedBy (verboseLogsOf w) w)
                                            (nodeManifests (store w))))
                    \<and> distinct ids
                    \<and> set ids = (\<Union>m\<in>set (nodeManifests (store w)). idsOf (verboseLogsOf w) w m)
                    \<and> mset (completionOrder schedule w)
                        = mset (filter (presentIn w) (nodeManifests (store w)))
                    \<and> (\<forall>p. case map_of pathMap p of
                              None \<Rightarrow> \<forall>m\<in>set (nodeManifests (store w)).
                                        presentIn w m \<longrightarrow> page_path (foundFor w m) \<noteq> Some p
                            | Some base \<Rightarrow>
                                \<exists>m\<in>set (nodeManifests (store w)).
                                  presentIn w m \<and> page_path (foundFor w m) = Some p
                                  \<and> base = fileNameBase (proc w) m))))"
proof (intro conjI impI allI)
  assume "nodeManifests (store w) = []"
  then show "processNodeManifests schedule t0 t1 w = Some (Inr (None, w))"
    by (simp add: processNodeManifests_def)
next
  assume "nodeManifests (store w) \<noteq> []"
  then show "\<exists>s r. processNodeManifests s t0 t1 w = Some (Inr r)"
    by (rule processNodeManifests_runs)
next
  fix r
  let ?ms = "nodeManifests (store w)"
  let ?v = "verboseLogsOf w"
  assume ne: "?ms \<noteq> []" and run: "processNodeManifests schedule t0 t1 w = Some r"
  from processNodeManifests_run [OF ne run] obtain b :: Batch and wc :: World where
    r: "r = Inr (Some (nodeManifestPagePathMap b),
              dispatch DELETE_NODE_MANIFESTS
                (wc\<lparr> reporter := reporter wc @
                       [InfoWroteOut (totalProcessedManifests b)
                          (totalFailedManifests b) (t1 - t0),
                        InfoWarnings
                          (if \<not> verboseLogsOf w \<and> length (listOfUniqueErrorIds b) > 0
                           then listOfUniqueErrorIds b else [])] \<rparr>))"
    and env: "sameEnvironment w wc"
    and cP: "totalProcessedManifests b = length (filter (presentIn w) ?ms)"
    and cF: "totalFailedManifests b = length (filter (\<lambda>m. \<not> presentIn w m) ?ms)"
    and rep: "mset (reporter wc)
       = mset (reporter w) + mset (concat (map (reportedBy ?v w) ?ms))"
    and dr: "dirs wc = dirs w \<union> (\<lambda>m. path_dirname w (manifestFilePath w m))
                         ` {m \<in> set ?ms. presentIn w m}"
    and fl: "\<forall>q. if q \<in> manifestFilePath w ` {m \<in> set ?ms. presentIn w m}
         then \<exists>m\<in>set ?ms.
                presentIn w m \<and> manifestFilePath w m = q \<and> files wc q = Some (artifactOf w m)
         else files wc q = files w q"
    and idd: "distinct (listOfUniqueErrorIds b)"
    and ids: "set (listOfUniqueErrorIds b) = (\<Union>m\<in>set ?ms. idsOf ?v w m)"
    and ord: "mset (completionOrder schedule w) = mset (filter (presentIn w) ?ms)"
    and pm: "nodeManifestPagePathMap b = fold (upd w) (completionOrder schedule w) []"
    by blast
  let ?ids = "if \<not> ?v \<and> length (listOfUniqueErrorIds b) > 0 then listOfUniqueErrorIds b else []"
  let ?w' = "dispatch DELETE_NODE_MANIFESTS
                (wc\<lparr> reporter := reporter wc @
                       [InfoWroteOut (totalProcessedManifests b)
                          (totalFailedManifests b) (t1 - t0), InfoWarnings ?ids] \<rparr>)"
  have e: "proc wc = proc w" "store wc = store w" "datastore wc = datastore w"
    "dispatched wc = dispatched w"
    using env by (simp_all add: sameEnvironment_def)
  have so: "set (completionOrder schedule w) = {m \<in> set ?ms. presentIn w m}"
    using ord by (metis mset_eq_setD set_filter)
  then have pres: "\<forall>m\<in>set (completionOrder schedule w). presentIn w m" by simp
  have idv: "?v \<Longrightarrow> (\<Union>m\<in>set ?ms. idsOf ?v w m) = {}" by (simp add: idsOf_def)
  have i1: "distinct ?ids" using idd by simp
  have i2: "set ?ids = (\<Union>m\<in>set ?ms. idsOf ?v w m)"
  proof (cases "\<not> ?v \<and> length (listOfUniqueErrorIds b) > 0")
    case True
    then show ?thesis using ids by simp
  next
    case False
    then have "?ids = []" by simp
    moreover have "(\<Union>m\<in>set ?ms. idsOf ?v w m) = {}"
    proof (cases ?v)
      case True
      then show ?thesis by (rule idv)
    next
      case v: False
      then have "listOfUniqueErrorIds b = []" using False by simp
      then show ?thesis using ids by simp
    qed
    ultimately show ?thesis by simp
  qed
  have look: "case map_of (nodeManifestPagePathMap b) p of
                None \<Rightarrow> \<forall>m\<in>set ?ms. presentIn w m \<longrightarrow> page_path (foundFor w m) \<noteq> Some p
              | Some base \<Rightarrow>
                  \<exists>m\<in>set ?ms. presentIn w m \<and> page_path (foundFor w m) = Some p
                    \<and> base = fileNameBase (proc w) m" for p
  proof (cases "filter (\<lambda>m. page_path (foundFor w m) = Some p) (completionOrder schedule w)")
    case Nil
    then have n: "map_of (nodeManifestPagePathMap b) p = None"
      unfolding pm pathMap_lookup(2) [OF pres] by simp
    have "\<forall>m\<in>set (completionOrder schedule w). page_path (foundFor w m) \<noteq> Some p"
      using Nil by (simp add: filter_empty_conv)
    then show ?thesis unfolding n so by simp
  next
    case (Cons m rest)
    then have s: "map_of (nodeManifestPagePathMap b) p
                    = Some (fileNameBase (proc w) (last (m # rest)))"
      unfolding pm pathMap_lookup(2) [OF pres] by simp
    have "last (m # rest)
            \<in> set (filter (\<lambda>m. page_path (foundFor w m) = Some p) (completionOrder schedule w))"
      unfolding Cons by (rule last_in_set) simp
    then have "last (m # rest) \<in> set ?ms" "presentIn w (last (m # rest))"
      "page_path (foundFor w (last (m # rest))) = Some p"
      using so by auto
    then show ?thesis unfolding s by auto
  qed
  show "\<exists>pathMap w' log ids.
          r = Inr (Some pathMap, w')
          \<and> store w' = (store w)\<lparr> nodeManifests := [] \<rparr>
          \<and> dispatched w' = dispatched w @ [DELETE_NODE_MANIFESTS]
          \<and> proc w' = proc w \<and> datastore w' = datastore w
          \<and> (\<forall>q. if q \<in> manifestFilePath w ` {m \<in> set ?ms. presentIn w m}
                  then \<exists>m\<in>set ?ms. presentIn w m \<and> manifestFilePath w m = q
                         \<and> files w' q = Some (artifactOf w m)
                  else files w' q = files w q)
          \<and> dirs w' = dirs w \<union> (\<lambda>m. path_dirname w (manifestFilePath w m))
                                 ` {m \<in> set ?ms. presentIn w m}
          \<and> reporter w'
              = log @ [InfoWroteOut (length (filter (presentIn w) ?ms))
                         (length (filter (\<lambda>m. \<not> presentIn w m) ?ms)) (t1 - t0),
                       InfoWarnings ids]
          \<and> mset log = mset (reporter w) + mset (concat (map (reportedBy ?v w) ?ms))
          \<and> distinct ids
          \<and> set ids = (\<Union>m\<in>set ?ms. idsOf ?v w m)
          \<and> mset (completionOrder schedule w) = mset (filter (presentIn w) ?ms)
          \<and> (\<forall>p. case map_of pathMap p of
                    None \<Rightarrow> \<forall>m\<in>set ?ms. presentIn w m \<longrightarrow> page_path (foundFor w m) \<noteq> Some p
                  | Some base \<Rightarrow>
                      \<exists>m\<in>set ?ms. presentIn w m \<and> page_path (foundFor w m) = Some p
                        \<and> base = fileNameBase (proc w) m)"
  proof (intro exI [of _ "nodeManifestPagePathMap b"] exI [of _ ?w'] exI [of _ "reporter wc"]
      exI [of _ ?ids] conjI)
    show "r = Inr (Some (nodeManifestPagePathMap b), ?w')" by (rule r)
    show "store ?w' = (store w)\<lparr> nodeManifests := [] \<rparr>"
      unfolding dispatch_fields by (simp add: e)
    show "dispatched ?w' = dispatched w @ [DELETE_NODE_MANIFESTS]"
      unfolding dispatch_fields by (simp add: e)
    show "proc ?w' = proc w" unfolding dispatch_fields by (simp add: e)
    show "datastore ?w' = datastore w" unfolding dispatch_fields by (simp add: e)
    show "\<forall>q. if q \<in> manifestFilePath w ` {m \<in> set ?ms. presentIn w m}
                  then \<exists>m\<in>set ?ms. presentIn w m \<and> manifestFilePath w m = q
                         \<and> files ?w' q = Some (artifactOf w m)
                  else files ?w' q = files w q"
      unfolding dispatch_fields using fl by simp
    show "dirs ?w' = dirs w \<union> (\<lambda>m. path_dirname w (manifestFilePath w m))
                                 ` {m \<in> set ?ms. presentIn w m}"
      unfolding dispatch_fields using dr by simp
    show "reporter ?w'
              = reporter wc @ [InfoWroteOut (length (filter (presentIn w) ?ms))
                         (length (filter (\<lambda>m. \<not> presentIn w m) ?ms)) (t1 - t0),
                       InfoWarnings ?ids]"
      unfolding dispatch_fields by (simp add: cP cF)
    show "mset (reporter wc) = mset (reporter w) + mset (concat (map (reportedBy ?v w) ?ms))"
      by (rule rep)
    show "distinct ?ids" by (rule i1)
    show "set ?ids = (\<Union>m\<in>set ?ms. idsOf ?v w m)" by (rule i2)
    show "mset (completionOrder schedule w) = mset (filter (presentIn w) ?ms)" by (rule ord)
    show "\<forall>p. case map_of (nodeManifestPagePathMap b) p of
                    None \<Rightarrow> \<forall>m\<in>set ?ms. presentIn w m \<longrightarrow> page_path (foundFor w m) \<noteq> Some p
                  | Some base \<Rightarrow>
                      \<exists>m\<in>set ?ms. presentIn w m \<and> page_path (foundFor w m) = Some p
                        \<and> base = fileNameBase (proc w) m"
      using look by blast
  qed
qed

text \<open>Witness for C8: the example world with no manifest pending; the verbose example
  world on Windows with its four pending manifests, one of them for a missing node, under
  a schedule in which the third task writes its file before the first; and the same
  schedule with quiet logs.\<close>

theorem processNodeManifests_batch_witness:
  "processNodeManifests [] 0 5 ((exWorld exBuild)\<lparr> store := exState \<rparr>)
     = Some (Inr (None, (exWorld exBuild)\<lparr> store := exState \<rparr>))
   \<and> (\<exists>pathMap w' log.
         processNodeManifests [1, 1, 2, 2, 2, 0, 0, 0, 3, 3, 3, 3, 3, 2, 2, 0, 0] 0 5
           (exWorld exVerboseWin32) = Some (Inr (Some pathMap, w'))
         \<and> pathMap = [(''/post-1'', ''a-b-c'')]
         \<and> nodeManifests (store w') = []
         \<and> dispatched w' = [DELETE_NODE_MANIFESTS]
         \<and> files w' ''/site/public/__node-manifests/gatsby-source-x/a-b-c.json''
             = Some \<lparr> out_page_path = Some ''/post-1'', out_node = \<lparr> node_id = ''n1'' \<rparr>,
                      out_foundPageBy = OwnerNodeId \<rparr>
         \<and> files w' ''/site/public/__node-manifests/gatsby-source-x/m5.json''
             = Some \<lparr> out_page_path = None, out_node = \<lparr> node_id = ''n5'' \<rparr>,
                      out_foundPageBy = NoneFound \<rparr>
         \<and> files w' ''/site/public/__node-manifests/gatsby-source-x/gone.json'' = None
         \<and> dirs w' = {''/site/public/__node-manifests/gatsby-source-x''}
         \<and> reporter w' = log @ [InfoWroteOut 3 1 5, InfoWarnings []]
         \<and> mset log
             = {#ReporterError ''11804'' (NoNodeContext ''gatsby-source-x'' ''n9''),
                 InfoCreated ''gatsby-source-x'' ''a-b-c'',
                 InfoCreated ''gatsby-source-x'' ''post-1-v2'',
                 ReporterError ''11801'' (MappingContext (exManifest ''m5'' ''n5'') None),
                 InfoCreated ''gatsby-source-x'' ''m5''#})
   \<and> (\<exists>pathMap w' ids.
         processNodeManifests [1, 1, 2, 2, 2, 0, 0, 0, 3, 3, 3, 3, 3, 2, 2, 0, 0] 0 5
           (exWorld exWin32) = Some (Inr (Some pathMap, w'))
         \<and> reporter w' = [InfoWroteOut 3 1 5, InfoWarnings ids]
         \<and> set ids = {''11804'', ''11801''})"
proof -
  let ?e = "(exWorld exBuild)\<lparr> store := exState \<rparr>"
  let ?w = "exWorld exVerboseWin32"
  let ?u = "exWorld exWin32"
  let ?s = "[1, 1, 2, 2, 2, 0, 0, 0, 3, 3, 3, 3, 3, 2, 2, 0, 0] :: nat list"
  let ?ms = "nodeManifests (store ?w)"
  let ?q1 = "''/site/public/__node-manifests/gatsby-source-x/a-b-c.json''"
  let ?q5 = "''/site/public/__node-manifests/gatsby-source-x/m5.json''"
  let ?q9 = "''/site/public/__node-manifests/gatsby-source-x/gone.json''"
  let ?a1 = "\<lparr> out_page_path = Some ''/post-1'', out_node = \<lparr> node_id = ''n1'' \<rparr>,
               out_foundPageBy = OwnerNodeId \<rparr>"
  let ?a5 = "\<lparr> out_page_path = None, out_node = \<lparr> node_id = ''n5'' \<rparr>,
               out_foundPageBy = NoneFound \<rparr>"
  have h0: "nodeManifests (store ?e) = []"
    by (simp add: exState_def)
  have a: "processNodeManifests [] 0 5 ?e = Some (Inr (None, ?e))"
    using processNodeManifests_batch [of ?e "[]" 0 5] h0 by blast

  have ne: "?ms \<noteq> []" by (simp add: exWorld_def exPending_def)
  have ev: "case processNodeManifests ?s 0 5 ?w of
              Some (Inr (Some pm, w')) \<Rightarrow> pm = [(''/post-1'', ''a-b-c'')] | _ \<Rightarrow> False"
    by code_simp
  then obtain pm0 w0 where r0: "processNodeManifests ?s 0 5 ?w = Some (Inr (Some pm0, w0))"
    and pm0: "pm0 = [(''/post-1'', ''a-b-c'')]"
    by (auto split: option.splits sum.splits prod.splits)
  have n3: "length (filter (presentIn ?w) ?ms) = 3"
    and n1: "length (filter (\<lambda>m. \<not> presentIn ?w m) ?ms) = 1"
    by code_simp+
  have d0: "dispatched ?w = []" and f0: "files ?w = Map.empty" and r00: "reporter ?w = []"
    by (simp_all add: exWorld_def)
  have in1: "?q1 \<in> manifestFilePath ?w ` {m \<in> set ?ms. presentIn ?w m}"
    and in5: "?q5 \<in> manifestFilePath ?w ` {m \<in> set ?ms. presentIn ?w m}"
    and in9: "?q9 \<notin> manifestFilePath ?w ` {m \<in> set ?ms. presentIn ?w m}"
    by code_simp+
  have u1: "\<forall>m\<in>set ?ms. presentIn ?w m \<and> manifestFilePath ?w m = ?q1 \<longrightarrow> artifactOf ?w m = ?a1"
    and u5: "\<forall>m\<in>set ?ms. presentIn ?w m \<and> manifestFilePath ?w m = ?q5 \<longrightarrow> artifactOf ?w m = ?a5"
    by code_simp+
  have dd: "dirs ?w \<union> (\<lambda>m. path_dirname ?w (manifestFilePath ?w m))
                         ` {m \<in> set ?ms. presentIn ?w m}
              = {''/site/public/__node-manifests/gatsby-source-x''}"
    by code_simp
  have rr: "concat (map (reportedBy (verboseLogsOf ?w) ?w) ?ms)
              = [InfoCreated ''gatsby-source-x'' ''a-b-c'',
                 ReporterError ''11804'' (NoNodeContext ''gatsby-source-x'' ''n9''),
                 InfoCreated ''gatsby-source-x'' ''post-1-v2'',
                 ReporterError ''11801'' (MappingContext (exManifest ''m5'' ''n5'') None),
                 InfoCreated ''gatsby-source-x'' ''m5'']"
    by code_simp
  have ii: "(\<Union>m\<in>set ?ms. idsOf (verboseLogsOf ?w) ?w m) = {}"
    by code_simp
  from processNodeManifests_batch [of ?w ?s 0 5, THEN conjunct2, THEN mp, OF ne,
      THEN conjunct2, THEN spec, THEN mp, OF r0]
  obtain pathMap w' log ids where
    r: "(Inr (Some pm0, w0) :: error + (string \<times> string) list option \<times> World)
          = Inr (Some pathMap, w')"
    and st: "store w' = (store ?w)\<lparr> nodeManifests := [] \<rparr>"
    and di: "dispatched w' = dispatched ?w @ [DELETE_NODE_MANIFESTS]"
    and fl: "\<forall>q. if q \<in> manifestFilePath ?w ` {m \<in> set ?ms. presentIn ?w m}
                  then \<exists>m\<in>set ?ms. presentIn ?w m \<and> manifestFilePath ?w m = q
                         \<and> files w' q = Some (artifactOf ?w m)
                  else files w' q = files ?w q"
    and dr: "dirs w' = dirs ?w \<union> (\<lambda>m. path_dirname ?w (manifestFilePath ?w m))
                                 ` {m \<in> set ?ms. presentIn ?w m}"
    and rp: "reporter w'
              = log @ [InfoWroteOut (length (filter (presentIn ?w) ?ms))
                         (length (filter (\<lambda>m. \<not> presentIn ?w m) ?ms)) (5 - 0),
                       InfoWarnings ids]"
    and lg: "mset log = mset (reporter ?w)
                          + mset (concat (map (reportedBy (verboseLogsOf ?w) ?w) ?ms))"
    and si: "set ids = (\<Union>m\<in>set ?ms. idsOf (verboseLogsOf ?w) ?w m)"
    by (elim exE conjE) (rule that)
  have w': "w0 = w'" and pm: "pm0 = pathMap" using r by simp_all
  have c1: "files w' ?q1 = Some ?a1"
    using fl [THEN spec, of ?q1] in1 u1 by auto
  have c5: "files w' ?q5 = Some ?a5"
    using fl [THEN spec, of ?q5] in5 u5 by auto
  have c9: "files w' ?q9 = None"
    using fl [THEN spec, of ?q9] in9 by (simp add: f0)
  have c0: "ids = []" using si ii by simp
  have b: "\<exists>pathMap w' log.
         processNodeManifests ?s 0 5 ?w = Some (Inr (Some pathMap, w'))
         \<and> pathMap = [(''/post-1'', ''a-b-c'')]
         \<and> nodeManifests (store w') = []
         \<and> dispatched w' = [DELETE_NODE_MANIFESTS]
         \<and> files w' ?q1 = Some ?a1
         \<and> files w' ?q5 = Some ?a5
         \<and> files w' ?q9 = None
         \<and> dirs w' = {''/site/public/__node-manifests/gatsby-source-x''}
         \<and> reporter w' = log @ [InfoWroteOut 3 1 5, InfoWarnings []]
         \<and> mset log
             = {#ReporterError ''11804'' (NoNodeContext ''gatsby-source-x'' ''n9''),
                 InfoCreated ''gatsby-source-x'' ''a-b-c'',
                 InfoCreated ''gatsby-source-x'' ''post-1-v2'',
                 ReporterError ''11801'' (MappingContext (exManifest ''m5'' ''n5'') None),
                 InfoCreated ''gatsby-source-x'' ''m5''#}"
  proof (intro exI [of _ pathMap] exI [of _ w'] exI [of _ log] conjI)
    show "processNodeManifests ?s 0 5 ?w = Some (Inr (Some pathMap, w'))"
      using r0 w' pm by simp
    show "pathMap = [(''/post-1'', ''a-b-c'')]" using pm pm0 by simp
    show "nodeManifests (store w') = []" using st by simp
    show "dispatched w' = [DELETE_NODE_MANIFESTS]" using di d0 by simp
    show "files w' ?q1 = Some ?a1" by (rule c1)
    show "files w' ?q5 = Some ?a5" by (rule c5)
    show "files w' ?q9 = None" by (rule c9)
    show "dirs w' = {''/site/public/__node-manifests/gatsby-source-x''}"
      using dr dd by simp
    show "reporter w' = log @ [InfoWroteOut 3 1 5, InfoWarnings []]"
      using rp unfolding n3 n1 c0 by simp
    show "mset log
             = {#ReporterError ''11804'' (NoNodeContext ''gatsby-source-x'' ''n9''),
                 InfoCreated ''gatsby-source-x'' ''a-b-c'',
                 InfoCreated ''gatsby-source-x'' ''post-1-v2'',
                 ReporterError ''11801'' (MappingContext (exManifest ''m5'' ''n5'') None),
                 InfoCreated ''gatsby-source-x'' ''m5''#}"
      unfolding lg rr r00 by simp
  qed

  have ne2: "nodeManifests (store ?u) \<noteq> []" by (simp add: exWorld_def exPending_def)
  have ev2: "case processNodeManifests ?s 0 5 ?u of
              Some (Inr (Some pm, w')) \<Rightarrow> True | _ \<Rightarrow> False"
    by code_simp
  then obtain pm2 w2 where r2: "processNodeManifests ?s 0 5 ?u = Some (Inr (Some pm2, w2))"
    by (auto split: option.splits sum.splits prod.splits)
  have m3: "length (filter (presentIn ?u) (nodeManifests (store ?u))) = 3"
    and m1: "length (filter (\<lambda>m. \<not> presentIn ?u m) (nodeManifests (store ?u))) = 1"
    by code_simp+
  have rr2: "reporter ?u @ concat (map (reportedBy (verboseLogsOf ?u) ?u) (nodeManifests (store ?u)))
               = []"
    by code_simp
  have ii2: "(\<Union>m\<in>set (nodeManifests (store ?u)). idsOf (verboseLogsOf ?u) ?u m)
               = {''11804'', ''11801''}"
    by code_simp
  from processNodeManifests_batch [of ?u ?s 0 5, THEN conjunct2, THEN mp, OF ne2,
      THEN conjunct2, THEN spec, THEN mp, OF r2]
  obtain pathMap2 w2' log2 ids2 where
    r': "(Inr (Some pm2, w2) :: error + (string \<times> string) list option \<times> World)
          = Inr (Some pathMap2, w2')"
    and rp2: "reporter w2'
              = log2 @ [InfoWroteOut (length (filter (presentIn ?u) (nodeManifests (store ?u))))
                         (length (filter (\<lambda>m. \<not> presentIn ?u m) (nodeManifests (store ?u))))
                         (5 - 0),
                       InfoWarnings ids2]"
    and lg2: "mset log2 = mset (reporter ?u)
                 + mset (concat (map (reportedBy (verboseLogsOf ?u) ?u) (nodeManifests (store ?u))))"
    and is2: "set ids2
                = (\<Union>m\<in>set (nodeManifests (store ?u)). idsOf (verboseLogsOf ?u) ?u m)"
    by (elim exE conjE) (rule that)
  have "mset log2 = mset (reporter ?u
           @ concat (map (reportedBy (verboseLogsOf ?u) ?u) (nodeManifests (store ?u))))"
    using lg2 by simp
  then have l2: "log2 = []" unfolding rr2 by simp
  have c: "\<exists>pathMap w' ids.
         processNodeManifests ?s 0 5 ?u = Some (Inr (Some pathMap, w'))
         \<and> reporter w' = [InfoWroteOut 3 1 5, InfoWarnings ids]
         \<and> set ids = {''11804'', ''11801''}"
  proof (intro exI [of _ pathMap2] exI [of _ w2'] exI [of _ ids2] conjI)
    show "processNodeManifests ?s 0 5 ?u = Some (Inr (Some pathMap2, w2'))"
      using r2 r' by simp
    show "reporter w2' = [InfoWroteOut 3 1 5, InfoWarnings ids2]"
      using rp2 unfolding m3 m1 l2 by simp
    show "set ids2 = {''11804'', ''11801''}"
      using is2 ii2 by simp
  qed
  show ?thesis using a b c by blast
qed

section \<open>The page path map\<close>

text \<open>
  Claim C10. In every run of a batch the requests whose tasks pass lines 310-312, where
  the page path map is set, are the pending requests with an existing node, each once, in
  the order in which their writes resolve. The map returned has at most one entry for a
  page path. The entry for a path \<open>p\<close> is the file name base (the sanitized manifest id)
  of the request that is the last in that order among those resolved to \<open>p\<close>, so a
  request processed later overwrites an earlier one; a path that no request resolves to
  has no entry, and every entry is for the path of a request, so a request resolved to a
  null path adds none.
\<close>

theorem processNodeManifests_pagePathMap:
  assumes "nodeManifests (store w) \<noteq> []"
    and "processNodeManifests schedule t0 t1 w = Some r"
  shows "\<exists>pathMap w'.
           r = Inr (Some pathMap, w')
           \<and> mset (completionOrder schedule w)
               = mset (filter (presentIn w) (nodeManifests (store w)))
           \<and> distinct (map fst pathMap)
           \<and> (\<forall>p. map_of pathMap p =
                 (case filter (\<lambda>m. page_path (foundFor w m) = Some p)
                         (completionOrder schedule w) of
                    [] \<Rightarrow> None
                  | m # rest \<Rightarrow> Some (fileNameBase (proc w) (last (m # rest)))))
           \<and> (\<forall>e\<in>set pathMap.
                 \<exists>m\<in>set (nodeManifests (store w)).
                   presentIn w m \<and> page_path (foundFor w m) = Some (fst e)
                   \<and> snd e = fileNameBase (proc w) m)"
proof -
  let ?ms = "nodeManifests (store w)"
  let ?order = "completionOrder schedule w"
  from processNodeManifests_run [OF assms] obtain b :: Batch and wc :: World where
    r: "r = Inr (Some (nodeManifestPagePathMap b),
              dispatch DELETE_NODE_MANIFESTS
                (wc\<lparr> reporter := reporter wc @
                       [InfoWroteOut (totalProcessedManifests b)
                          (totalFailedManifests b) (t1 - t0),
                        InfoWarnings
                          (if \<not> verboseLogsOf w \<and> length (listOfUniqueErrorIds b) > 0
                           then listOfUniqueErrorIds b else [])] \<rparr>))"
    and ord: "mset ?order = mset (filter (presentIn w) ?ms)"
    and pm: "nodeManifestPagePathMap b = fold (upd w) ?order []"
    by blast
  have so: "set ?order = {m \<in> set ?ms. presentIn w m}"
    using ord by (metis mset_eq_setD set_filter)
  then have pres: "\<forall>m\<in>set ?order. presentIn w m" by simp
  note look = pathMap_lookup [OF pres]
  have ent: "\<exists>m\<in>set ?ms. presentIn w m \<and> page_path (foundFor w m) = Some (fst e)
               \<and> snd e = fileNameBase (proc w) m"
    if e: "e \<in> set (nodeManifestPagePathMap b)" for e
  proof -
    have "map_of (nodeManifestPagePathMap b) (fst e) = Some (snd e)"
      using e look(1) unfolding pm by simp
    then have c: "(case filter (\<lambda>m. page_path (foundFor w m) = Some (fst e)) ?order of
              [] \<Rightarrow> None
            | m # rest \<Rightarrow> Some (fileNameBase (proc w) (last (m # rest)))) = Some (snd e)"
      unfolding pm look(2) .
    then obtain m rest where
      f: "filter (\<lambda>m. page_path (foundFor w m) = Some (fst e)) ?order = m # rest"
      by (cases "filter (\<lambda>m. page_path (foundFor w m) = Some (fst e)) ?order") simp_all
    have "last (m # rest) \<in> set (filter (\<lambda>m. page_path (foundFor w m) = Some (fst e)) ?order)"
      unfolding f by (rule last_in_set) simp
    then have "last (m # rest) \<in> set ?ms" "presentIn w (last (m # rest))"
      "page_path (foundFor w (last (m # rest))) = Some (fst e)"
      using so by auto
    moreover have "snd e = fileNameBase (proc w) (last (m # rest))"
      using c unfolding f by simp
    ultimately show ?thesis by blast
  qed
  show ?thesis
  proof (intro exI [of _ "nodeManifestPagePathMap b"] exI conjI ballI allI)
    show "r = Inr (Some (nodeManifestPagePathMap b),
              dispatch DELETE_NODE_MANIFESTS
                (wc\<lparr> reporter := reporter wc @
                       [InfoWroteOut (totalProcessedManifests b)
                          (totalFailedManifests b) (t1 - t0),
                        InfoWarnings
                          (if \<not> verboseLogsOf w \<and> length (listOfUniqueErrorIds b) > 0
                           then listOfUniqueErrorIds b else [])] \<rparr>))"
      by (rule r)
    show "mset ?order = mset (filter (presentIn w) ?ms)" by (rule ord)
    show "distinct (map fst (nodeManifestPagePathMap b))"
      unfolding pm by (rule look(1))
    show "map_of (nodeManifestPagePathMap b) p =
            (case filter (\<lambda>m. page_path (foundFor w m) = Some p) ?order of
               [] \<Rightarrow> None
             | m # rest \<Rightarrow> Some (fileNameBase (proc w) (last (m # rest))))" for p
      unfolding pm by (rule look(2))
    show "\<exists>m\<in>set ?ms. presentIn w m \<and> page_path (foundFor w m) = Some (fst e)
               \<and> snd e = fileNameBase (proc w) m"
      if "e \<in> set (nodeManifestPagePathMap b)" for e
      using that by (rule ent)
  qed
qed

text \<open>Witness for C10: the four pending manifests of the example world on Windows. The
  first, with the id \<^verbatim>\<open>a:b/c\<close>, and the third resolve to \<^verbatim>\<open>/post-1\<close>; the second
  has no node and the fourth resolves to a null path. Under a schedule in which the third
  task writes before the first, the entry is the sanitized id of the first; under the
  schedule in which each task ends before the next resumes, it is the id of the
  third.\<close>

theorem processNodeManifests_pagePathMap_witness:
  "(\<exists>pathMap w'.
      processNodeManifests [1, 1, 2, 2, 2, 0, 0, 0, 3, 3, 3, 3, 3, 2, 2, 0, 0] 0 5
        (exWorld exWin32) = Some (Inr (Some pathMap, w'))
      \<and> completionOrder [1, 1, 2, 2, 2, 0, 0, 0, 3, 3, 3, 3, 3, 2, 2, 0, 0] (exWorld exWin32)
          = [exManifest ''post-1-v2'' ''n1'', exManifest ''a:b/c'' ''n1'',
             exManifest ''m5'' ''n5'']
      \<and> pathMap = [(''/post-1'', ''a-b-c'')]
      \<and> map_of pathMap ''/post-1'' = Some ''a-b-c'')
   \<and> (\<exists>pathMap w'.
      processNodeManifests [0, 0, 0, 0, 0, 1, 1, 2, 2, 2, 2, 2, 3, 3, 3, 3, 3] 0 5
        (exWorld exWin32) = Some (Inr (Some pathMap, w'))
      \<and> completionOrder [0, 0, 0, 0, 0, 1, 1, 2, 2, 2, 2, 2, 3, 3, 3, 3, 3] (exWorld exWin32)
          = [exManifest ''a:b/c'' ''n1'', exManifest ''post-1-v2'' ''n1'',
             exManifest ''m5'' ''n5'']
      \<and> pathMap = [(''/post-1'', ''post-1-v2'')]
      \<and> map_of pathMap ''/post-1'' = Some ''post-1-v2'')"
proof -
  let ?u = "exWorld exWin32"
  let ?s = "[1, 1, 2, 2, 2, 0, 0, 0, 3, 3, 3, 3, 3, 2, 2, 0, 0] :: nat list"
  let ?t = "[0, 0, 0, 0, 0, 1, 1, 2, 2, 2, 2, 2, 3, 3, 3, 3, 3] :: nat list"
  have ne: "nodeManifests (store ?u) \<noteq> []" by (simp add: exWorld_def exPending_def)
  have ev: "case processNodeManifests ?s 0 5 ?u of
              Some (Inr (Some pm, w')) \<Rightarrow> pm = [(''/post-1'', ''a-b-c'')] | _ \<Rightarrow> False"
    by code_simp
  then obtain pm1 w1 where r1: "processNodeManifests ?s 0 5 ?u = Some (Inr (Some pm1, w1))"
    and pm1: "pm1 = [(''/post-1'', ''a-b-c'')]"
    by (auto split: option.splits sum.splits prod.splits)
  have o1: "completionOrder ?s ?u
              = [exManifest ''post-1-v2'' ''n1'', exManifest ''a:b/c'' ''n1'',
                 exManifest ''m5'' ''n5'']"
    by code_simp
  have l1: "(case filter (\<lambda>m. page_path (foundFor ?u m) = Some ''/post-1'')
                    [exManifest ''post-1-v2'' ''n1'', exManifest ''a:b/c'' ''n1'',
                     exManifest ''m5'' ''n5''] of
               [] \<Rightarrow> None
             | m # rest \<Rightarrow> Some (fileNameBase (proc ?u) (last (m # rest)))) = Some ''a-b-c''"
    by code_simp
  from processNodeManifests_pagePathMap [OF ne r1]
  obtain pathMap w' where
    r: "(Inr (Some pm1, w1) :: error + (string \<times> string) list option \<times> World)
          = Inr (Some pathMap, w')"
    and lk: "\<forall>p. map_of pathMap p =
                 (case filter (\<lambda>m. page_path (foundFor ?u m) = Some p) (completionOrder ?s ?u) of
                    [] \<Rightarrow> None
                  | m # rest \<Rightarrow> Some (fileNameBase (proc ?u) (last (m # rest))))"
    by (elim exE conjE) (rule that)
  have a: "\<exists>pathMap w'.
      processNodeManifests ?s 0 5 ?u = Some (Inr (Some pathMap, w'))
      \<and> completionOrder ?s ?u
          = [exManifest ''post-1-v2'' ''n1'', exManifest ''a:b/c'' ''n1'',
             exManifest ''m5'' ''n5'']
      \<and> pathMap = [(''/post-1'', ''a-b-c'')]
      \<and> map_of pathMap ''/post-1'' = Some ''a-b-c''"
  proof (intro exI [of _ pathMap] exI [of _ w'] conjI)
    show "processNodeManifests ?s 0 5 ?u = Some (Inr (Some pathMap, w'))"
      using r1 r by simp
    show "completionOrder ?s ?u
          = [exManifest ''post-1-v2'' ''n1'', exManifest ''a:b/c'' ''n1'',
             exManifest ''m5'' ''n5'']"
      by (rule o1)
    show "pathMap = [(''/post-1'', ''a-b-c'')]" using r pm1 by simp
    show "map_of pathMap ''/post-1'' = Some ''a-b-c''"
      using lk [THEN spec, of "''/post-1''"] unfolding o1 l1 .
  qed
  have ev2: "case processNodeManifests ?t 0 5 ?u of
              Some (Inr (Some pm, w')) \<Rightarrow> pm = [(''/post-1'', ''post-1-v2'')] | _ \<Rightarrow> False"
    by code_simp
  then obtain pm2 w2 where r2: "processNodeManifests ?t 0 5 ?u = Some (Inr (Some pm2, w2))"
    and pm2: "pm2 = [(''/post-1'', ''post-1-v2'')]"
    by (auto split: option.splits sum.splits prod.splits)
  have o2: "completionOrder ?t ?u
              = [exManifest ''a:b/c'' ''n1'', exManifest ''post-1-v2'' ''n1'',
                 exManifest ''m5'' ''n5'']"
    by code_simp
  have l2: "(case filter (\<lambda>m. page_path (foundFor ?u m) = Some ''/post-1'')
                    [exManifest ''a:b/c'' ''n1'', exManifest ''post-1-v2'' ''n1'',
                     exManifest ''m5'' ''n5''] of
               [] \<Rightarrow> None
             | m # rest \<Rightarrow> Some (fileNameBase (proc ?u) (last (m # rest)))) = Some ''post-1-v2''"
    by code_simp
  from processNodeManifests_pagePathMap [OF ne r2]
  obtain pathMap2 w2' where
    r': "(Inr (Some pm2, w2) :: error + (string \<times> string) list option \<times> World)
          = Inr (Some pathMap2, w2')"
    and lk2: "\<forall>p. map_of pathMap2 p =
                 (case filter (\<lambda>m. page_path (foundFor ?u m) = Some p) (completionOrder ?t ?u) of
                    [] \<Rightarrow> None
                  | m # rest \<Rightarrow> Some (fileNameBase (proc ?u) (last (m # rest))))"
    by (elim exE conjE) (rule that)
  have b: "\<exists>pathMap w'.
      processNodeManifests ?t 0 5 ?u = Some (Inr (Some pathMap, w'))
      \<and> completionOrder ?t ?u
          = [exManifest ''a:b/c'' ''n1'', exManifest ''post-1-v2'' ''n1'',
             exManifest ''m5'' ''n5'']
      \<and> pathMap = [(''/post-1'', ''post-1-v2'')]
      \<and> map_of pathMap ''/post-1'' = Some ''post-1-v2''"
  proof (intro exI [of _ pathMap2] exI [of _ w2'] conjI)
    show "processNodeManifests ?t 0 5 ?u = Some (Inr (Some pathMap2, w2'))"
      using r2 r' by simp
    show "completionOrder ?t ?u
          = [exManifest ''a:b/c'' ''n1'', exManifest ''post-1-v2'' ''n1'',
             exManifest ''m5'' ''n5'']"
      by (rule o2)
    show "pathMap2 = [(''/post-1'', ''post-1-v2'')]" using r' pm2 by simp
    show "map_of pathMap2 ''/post-1'' = Some ''post-1-v2''"
      using lk2 [THEN spec, of "''/post-1''"] unfolding o2 l2 .
  qed
  show ?thesis using a b by blast
qed

end
